theory Spec2Isabelle
  imports Main "HOL-Library.Word"
begin

unbundle bit_operations_syntax

section \<open>Data model of main.go\<close>

text \<open>
  A Go \<open>byte\<close> is an 8-bit word and \<open>keyset\<close> (Go's \<open>uint\<close> on a 64-bit platform) a
  64-bit word. A \<open>*cell\<close> is modelled by the position of the cell in the backing array
  that \<open>newMaze\<close> allocates (\<open>cells := make([]*cell, w*h)\<close>): the pointer stored in
  \<open>m.rows[i][j]\<close> is the index \<open>i * w + j\<close>, and the heap of cells is the array itself,
  an entry \<open>None\<close> being a nil pointer (a wall). Go's \<open>int\<close> is modelled by the
  unbounded integers: path lengths are bounded by the number of cells.
\<close>

type_synonym byte = "8 word"
type_synonym keyset = "64 word"
type_synonym ref = nat

datatype cellType = empty | start | key | door

record path =
  len :: int
  dest :: ref
  reqKeys :: keyset

record cell =
  char :: byte
  adj :: "ref list"
  paths :: "path list"
  cellType :: cellType

type_synonym heap = "cell option list"

record maze =
  w :: nat
  h :: nat
  rows :: heap
  keys :: keyset

record state =
  cells :: "ref list"
  keys :: keyset

text \<open>
  Outcomes that are not a value: the two run-time panics the program can raise, and
  \<open>OutOfFuel\<close>, which is not an outcome of the Go program but marks a run of the
  recursive search that the recursion bound of the model cut off.
\<close>

datatype error = IndexOutOfRange | NilDereference | OutOfFuel

type_synonym table = "byte list \<rightharpoonup> int"

definition deref :: "heap \<Rightarrow> ref \<Rightarrow> cell option" where
  "deref a p = (if p < length a then a ! p else None)"

section \<open>keyset\<close>

definition keyset_contains :: "keyset \<Rightarrow> byte \<Rightarrow> bool" where
  "keyset_contains k c = (drop_bit (unat (c - 97)) k AND 1 = 1)"

definition keyset_plus :: "keyset \<Rightarrow> byte \<Rightarrow> keyset" where
  "keyset_plus k c = k OR push_bit (unat (c - 97)) 1"

definition keyset_containsAll :: "keyset \<Rightarrow> keyset \<Rightarrow> bool" where
  "keyset_containsAll k ks = (k AND ks = ks)"

section \<open>Building the maze\<close>

definition newCell :: "byte \<Rightarrow> cell" where
  "newCell c =
     \<lparr>char = c, adj = [], paths = [],
      cellType = (if c = 64 then start
                  else if 97 \<le> c \<and> c \<le> 122 then key
                  else if 65 \<le> c \<and> c \<le> 90 then door
                  else empty)\<rparr>"

text \<open>\<open>c.adj = append(c.adj, c1)\<close> on the cell that \<open>p\<close> points to.\<close>

definition appendAdj :: "heap \<Rightarrow> ref \<Rightarrow> ref \<Rightarrow> error + heap" where
  "appendAdj a p q =
     (case deref a p of
        None \<Rightarrow> Inl NilDereference
      | Some c \<Rightarrow> Inr (a[p := Some (c\<lparr>adj := adj c @ [q]\<rparr>)]))"

definition cell_join :: "heap \<Rightarrow> ref \<Rightarrow> ref \<Rightarrow> error + heap" where
  "cell_join a c c1 =
     (case appendAdj a c c1 of
        Inl e \<Rightarrow> Inl e
      | Inr a' \<Rightarrow> appendAdj a' c1 c)"

definition newMaze :: "nat \<Rightarrow> nat \<Rightarrow> maze" where
  "newMaze wd ht = \<lparr>w = wd, h = ht, rows = replicate (wd * ht) None, keys = 0\<rparr>"

text \<open>
  One of the four conditional joins of \<open>addCell\<close>: \<open>if cond && m.rows[..][..] != nil\<close>
  then join the new cell \<open>p\<close> to the neighbour \<open>q\<close>.
\<close>

definition joinIf :: "bool \<Rightarrow> ref \<Rightarrow> ref \<Rightarrow> heap \<Rightarrow> error + heap" where
  "joinIf cond p q a =
     (if cond \<and> deref a q \<noteq> None then cell_join a p q else Inr a)"

definition maze_addCell :: "nat \<Rightarrow> nat \<Rightarrow> cell \<Rightarrow> maze \<Rightarrow> error + maze" where
  "maze_addCell i j c m =
     (if \<not> (i < h m \<and> j < w m) then Inl IndexOutOfRange
      else
        let p = i * w m + j;
            a0 = (rows m)[p := Some c]
        in case joinIf (0 < i) p ((i - 1) * w m + j) a0 of
             Inl e \<Rightarrow> Inl e
           | Inr a1 \<Rightarrow>
         (case joinIf (0 < j) p (i * w m + (j - 1)) a1 of
             Inl e \<Rightarrow> Inl e
           | Inr a2 \<Rightarrow>
         (case joinIf (i + 1 < h m) p ((i + 1) * w m + j) a2 of
             Inl e \<Rightarrow> Inl e
           | Inr a3 \<Rightarrow>
         (case joinIf (j + 1 < w m) p (i * w m + (j + 1)) a3 of
             Inl e \<Rightarrow> Inl e
           | Inr a4 \<Rightarrow>
             Inr (m\<lparr>rows := a4,
                    maze.keys := (if cellType c = key
                                  then keyset_plus (maze.keys m) (char c)
                                  else maze.keys m)\<rparr>)))))"

text \<open>
  \<open>for j := range rows[i]\<close> ranges over a Go string: the index steps from one UTF-8
  encoded rune to the next (Go's runtime \<open>decoderune\<close>), by one byte on an ASCII or
  malformed byte. \<open>runeWidth\<close> is the step at the head of the remaining bytes.
\<close>

definition contByte :: "byte \<Rightarrow> bool" where
  "contByte b = (128 \<le> b \<and> b \<le> 191)"

definition runeWidth :: "byte list \<Rightarrow> nat" where
  "runeWidth s =
     (case s of
        [] \<Rightarrow> 1
      | b0 # r \<Rightarrow>
          if b0 < 128 then 1
          else if 192 \<le> b0 \<and> b0 < 224 then
            (case r of
               b1 # _ \<Rightarrow>
                 if contByte b1 \<and> 127 < unat (b0 AND 31) * 64 + unat (b1 AND 63)
                 then 2 else 1
             | _ \<Rightarrow> 1)
          else if 224 \<le> b0 \<and> b0 < 240 then
            (case r of
               b1 # b2 # _ \<Rightarrow>
                 (let rn = unat (b0 AND 15) * 4096 + unat (b1 AND 63) * 64 + unat (b2 AND 63)
                  in if contByte b1 \<and> contByte b2 \<and> 2047 < rn
                        \<and> \<not> (55296 \<le> rn \<and> rn \<le> 57343)
                     then 3 else 1)
             | _ \<Rightarrow> 1)
          else if 240 \<le> b0 \<and> b0 < 248 then
            (case r of
               b1 # b2 # b3 # _ \<Rightarrow>
                 (let rn = unat (b0 AND 7) * 262144 + unat (b1 AND 63) * 4096
                           + unat (b2 AND 63) * 64 + unat (b3 AND 63)
                  in if contByte b1 \<and> contByte b2 \<and> contByte b3 \<and> 65535 < rn
                        \<and> rn \<le> 1114111
                     then 4 else 1)
             | _ \<Rightarrow> 1)
          else 1)"

lemma runeWidth_pos: "0 < runeWidth s"
  by (auto simp: runeWidth_def Let_def split: list.splits)

function rangeFrom :: "nat \<Rightarrow> byte list \<Rightarrow> nat list" where
  "rangeFrom k s =
     (if k < length s then k # rangeFrom (k + runeWidth (drop k s)) s else [])"
  by pat_completeness auto
termination
  using runeWidth_pos
  by (relation "measure (\<lambda>(k, s). length s - k)") (auto simp: diff_less_mono2)

definition rangeString :: "byte list \<Rightarrow> nat list" where
  "rangeString s = rangeFrom 0 s"

section \<open>findPaths\<close>

text \<open>
  The path \<open>next\<close> that the inner loop of \<open>findPaths\<close> builds for the neighbour \<open>x\<close>
  (the cell \<open>cx\<close>) of the end of \<open>current\<close>.
\<close>

definition extendPath :: "path \<Rightarrow> ref \<Rightarrow> cell \<Rightarrow> path" where
  "extendPath current x cx =
     (let next = \<lparr>len = len current + 1, dest = x, reqKeys = reqKeys current\<rparr>
      in if cellType cx = door
         then next\<lparr>reqKeys := keyset_plus (reqKeys next) (char cx OR 32)\<rparr>
         else next)"

text \<open>
  The inner loop \<open>for _, adj := range current.dest.adj\<close>. \<open>seen\<close> is the set of
  pointers that the map \<open>seen\<close> sends to true, \<open>q\<close> the queue, still holding
  \<open>current\<close> at its head.
\<close>

fun visitAdj :: "heap \<Rightarrow> path \<Rightarrow> ref list \<Rightarrow> ref set \<times> path list
    \<Rightarrow> error + (ref set \<times> path list)" where
  "visitAdj a current [] (seen, q) = Inr (seen, q)"
| "visitAdj a current (x # xs) (seen, q) =
     (if x \<in> seen then visitAdj a current xs (seen, q)
      else case deref a x of
             None \<Rightarrow> Inl NilDereference
           | Some cx \<Rightarrow> visitAdj a current xs (insert x seen, q @ [extendPath current x cx]))"

lemma visitAdj_measure:
  "visitAdj a cur xs (seen, q) = Inr (seen', q') \<Longrightarrow>
     2 * card ({..<length a} - seen') + length q' \<le> 2 * card ({..<length a} - seen) + length q"
proof (induction xs arbitrary: seen q)
  case Nil
  then show ?case by simp
next
  case (Cons x xs)
  show ?case
  proof (cases "x \<in> seen")
    case True
    with Cons show ?thesis by simp
  next
    case False
    with Cons.prems obtain cx where cx: "deref a x = Some cx"
      by (auto split: option.splits)
    then have xa: "x < length a"
      by (auto simp: deref_def split: if_splits)
    from Cons.prems False cx obtain nx where
      rec: "visitAdj a cur xs (insert x seen, q @ [nx]) = Inr (seen', q')"
      by (auto simp: Let_def split: if_splits)
    have "{..<length a} - insert x seen = ({..<length a} - seen) - {x}"
      by auto
    moreover have "x \<in> {..<length a} - seen"
      using xa False by simp
    ultimately have "card ({..<length a} - insert x seen) < card ({..<length a} - seen)"
      by (metis card_Diff1_less finite_Diff finite_lessThan)
    with Cons.IH [OF rec] show ?thesis by simp
  qed
qed

lemma visitAdj_prefix:
  "visitAdj a cur xs (seen, q) = Inr (seen', q') \<Longrightarrow> \<exists>news. q' = q @ news"
proof (induction xs arbitrary: seen q)
  case Nil
  then show ?case by simp
next
  case (Cons x xs)
  show ?case
  proof (cases "x \<in> seen")
    case True
    with Cons show ?thesis by simp
  next
    case False
    with Cons.prems obtain nx where
      "visitAdj a cur xs (insert x seen, q @ [nx]) = Inr (seen', q')"
      by (auto simp: Let_def split: option.splits if_splits)
    from Cons.IH [OF this] show ?thesis by auto
  qed
qed

function bfs :: "heap \<Rightarrow> ref set \<Rightarrow> path list \<Rightarrow> path list \<Rightarrow> error + path list" where
  "bfs a seen [] ps = Inr ps"
| "bfs a seen (current # rest) ps =
     (case deref a (dest current) of
        None \<Rightarrow> Inl NilDereference
      | Some c \<Rightarrow>
          (case visitAdj a current (adj c) (seen, current # rest) of
             Inl e \<Rightarrow> Inl e
           | Inr (seen', q') \<Rightarrow>
               bfs a seen' (tl q')
                 (if cellType c = key then ps @ [current] else ps)))"
  by pat_completeness auto
termination
proof (relation "measure (\<lambda>(a, seen, q, ps). 2 * card ({..<length a} - seen) + length q)",
    goal_cases)
  case 1
  show ?case by simp
next
  case (2 a seen current rest ps c r seen' q')
  from visitAdj_measure [of a current "adj c" seen "current # rest" seen' q'] 2
  have "2 * card ({..<length a} - seen') + length q'
          \<le> 2 * card ({..<length a} - seen) + Suc (length rest)"
    by simp
  moreover have "length (tl q') = length q' - 1"
    by simp
  moreover from visitAdj_prefix [of a current "adj c" seen "current # rest" seen' q'] 2
  have "q' \<noteq> []"
    by auto
  ultimately show ?case
    by (cases q') auto
qed

definition findPaths :: "heap \<Rightarrow> ref \<Rightarrow> error + path list" where
  "findPaths a c = bfs a {c} [\<lparr>len = 0, dest = c, reqKeys = 0\<rparr>] []"

section \<open>readMaze\<close>

text \<open>
  \<open>buildPaths\<close> and \<open>start\<close> scan \<open>m.rows\<close> row by row; the rows are consecutive
  slices of the backing array, so the scan visits its indices in increasing order.
\<close>

fun buildPathsAt :: "ref list \<Rightarrow> heap \<Rightarrow> error + heap" where
  "buildPathsAt [] a = Inr a"
| "buildPathsAt (p # ps) a =
     (case deref a p of
        None \<Rightarrow> buildPathsAt ps a
      | Some c \<Rightarrow>
          if cellType c = key \<or> cellType c = start then
            (case findPaths a p of
               Inl e \<Rightarrow> Inl e
             | Inr pths \<Rightarrow> buildPathsAt ps (a[p := Some (c\<lparr>paths := pths\<rparr>)]))
          else buildPathsAt ps a)"

definition maze_buildPaths :: "maze \<Rightarrow> error + maze" where
  "maze_buildPaths m =
     (case buildPathsAt [0..<length (rows m)] (rows m) of
        Inl e \<Rightarrow> Inl e
      | Inr a \<Rightarrow> Inr (m\<lparr>rows := a\<rparr>))"

definition maze_start :: "maze \<Rightarrow> ref list" where
  "maze_start m =
     filter (\<lambda>p. case deref (rows m) p of None \<Rightarrow> False | Some c \<Rightarrow> cellType c = start)
       [0..<length (rows m)]"

text \<open>The loop over the columns \<open>js\<close> of row \<open>i\<close>, and the loop over the rows.\<close>

fun addRowCells :: "nat \<Rightarrow> byte list \<Rightarrow> nat list \<Rightarrow> maze \<Rightarrow> error + maze" where
  "addRowCells i row [] m = Inr m"
| "addRowCells i row (j # js) m =
     (if row ! j \<noteq> 35 then
        (case maze_addCell i j (newCell (row ! j)) m of
           Inl e \<Rightarrow> Inl e
         | Inr m' \<Rightarrow> addRowCells i row js m')
      else addRowCells i row js m)"

fun addRows :: "nat \<Rightarrow> byte list list \<Rightarrow> maze \<Rightarrow> error + maze" where
  "addRows i [] m = Inr m"
| "addRows i (row # rest) m =
     (case addRowCells i row (rangeString row) m of
        Inl e \<Rightarrow> Inl e
      | Inr m' \<Rightarrow> addRows (Suc i) rest m')"

text \<open>\<open>readMaze\<close> on the lines that the scanner yields.\<close>

definition readMaze :: "byte list list \<Rightarrow> error + maze" where
  "readMaze ls =
     (case ls of
        [] \<Rightarrow> Inl IndexOutOfRange
      | l0 # _ \<Rightarrow>
          (case addRows 0 ls (newMaze (length l0) (length ls)) of
             Inl e \<Rightarrow> Inl e
           | Inr m \<Rightarrow> maze_buildPaths m))"

section \<open>The search\<close>

text \<open>\<open>fmt.Sprintf("%d", n)\<close> for an unsigned \<open>n\<close>: its decimal digits.\<close>

function decimal :: "nat \<Rightarrow> byte list" where
  "decimal n = (if n < 10 then [48 + of_nat n] else decimal (n div 10) @ [48 + of_nat (n mod 10)])"
  by pat_completeness auto
termination
  by (relation "measure id") auto

text \<open>The bytes \<open>cells[i] = s.cells[i].char\<close> of \<open>state.String\<close>.\<close>

fun cellChars :: "heap \<Rightarrow> ref list \<Rightarrow> error + byte list" where
  "cellChars a [] = Inr []"
| "cellChars a (c # cs) =
     (case deref a c of
        None \<Rightarrow> Inl NilDereference
      | Some cl \<Rightarrow>
          (case cellChars a cs of
             Inl e \<Rightarrow> Inl e
           | Inr bs \<Rightarrow> Inr (char cl # bs)))"

definition state_String :: "heap \<Rightarrow> state \<Rightarrow> error + byte list" where
  "state_String a s =
     (case cellChars a (cells s) of
        Inl e \<Rightarrow> Inl e
      | Inr bs \<Rightarrow> Inr (bs @ decimal (unat (state.keys s))))"

text \<open>
  The state that the body of the inner loop builds for agent \<open>i\<close> and a path to the
  cell \<open>d\<close> at \<open>dst\<close>: a copy of \<open>s\<close> with \<open>cells[i]\<close> replaced and the key of \<open>d\<close> added.
  \<open>i\<close> is an index of \<open>s.cells\<close> (the loop ranges over it), so the write is in range.
\<close>

definition state_copy :: "state \<Rightarrow> state" where
  "state_copy s = \<lparr>cells = cells s, keys = state.keys s\<rparr>"

definition nextState :: "state \<Rightarrow> nat \<Rightarrow> ref \<Rightarrow> cell \<Rightarrow> state" where
  "nextState s i dst d =
     (state_copy s)\<lparr>cells := (cells (state_copy s))[i := dst],
                     state.keys := keyset_plus (state.keys s) (char d)\<rparr>"

text \<open>\<open>if min == 0 || dist < min { min = dist }\<close>\<close>

definition updMin :: "int \<Rightarrow> int \<Rightarrow> int" where
  "updMin mn dist = (if mn = 0 \<or> dist < mn then dist else mn)"

text \<open>
  The two loops of \<open>shortestPath\<close>. \<open>rec\<close> is the recursive call
  \<open>shortestPath(m, nextState, table)\<close>; the loops thread \<open>min\<close> and the memo table.
\<close>

type_synonym search = "state \<Rightarrow> table \<Rightarrow> error + (int \<times> table)"

fun pathsLoop :: "search \<Rightarrow> heap \<Rightarrow> state \<Rightarrow> nat \<Rightarrow> path list \<Rightarrow> int \<times> table
    \<Rightarrow> error + (int \<times> table)" where
  "pathsLoop rec a s i [] (mn, t) = Inr (mn, t)"
| "pathsLoop rec a s i (p # ps) (mn, t) =
     (case deref a (dest p) of
        None \<Rightarrow> Inl NilDereference
      | Some d \<Rightarrow>
          if keyset_contains (state.keys s) (char d)
             \<or> \<not> keyset_containsAll (state.keys s) (reqKeys p)
          then pathsLoop rec a s i ps (mn, t)
          else
            (case rec (nextState s i (dest p) d) t of
               Inl e \<Rightarrow> Inl e
             | Inr (r, t') \<Rightarrow> pathsLoop rec a s i ps (updMin mn (len p + r), t')))"

fun cellsLoop :: "search \<Rightarrow> heap \<Rightarrow> state \<Rightarrow> nat \<Rightarrow> ref list \<Rightarrow> int \<times> table
    \<Rightarrow> error + (int \<times> table)" where
  "cellsLoop rec a s i [] (mn, t) = Inr (mn, t)"
| "cellsLoop rec a s i (c # cs) (mn, t) =
     (case deref a c of
        None \<Rightarrow> Inl NilDereference
      | Some cl \<Rightarrow>
          (case pathsLoop rec a s i (paths cl) (mn, t) of
             Inl e \<Rightarrow> Inl e
           | Inr acc \<Rightarrow> cellsLoop rec a s (Suc i) cs acc))"

text \<open>
  \<open>shortestPath\<close>, with a bound \<open>n\<close> on the depth of the recursion: at depth \<open>0\<close> the
  run is cut off.
\<close>

primrec shortestPath :: "nat \<Rightarrow> maze \<Rightarrow> state \<Rightarrow> table \<Rightarrow> error + (int \<times> table)" where
  "shortestPath 0 m s t = Inl OutOfFuel"
| "shortestPath (Suc n) m s t =
     (case state_String (rows m) s of
        Inl e \<Rightarrow> Inl e
      | Inr stateKey \<Rightarrow>
          if state.keys s = maze.keys m then Inr (0, t)
          else
            (case t stateKey of
               Some d \<Rightarrow> Inr (d, t)
             | None \<Rightarrow>
                 (case cellsLoop (shortestPath n m) (rows m) s 0 (cells s) (0, t) of
                    Inl e \<Rightarrow> Inl e
                  | Inr (mn, t') \<Rightarrow> Inr (mn, t'(stateKey \<mapsto> mn)))))"

text \<open>\<open>main\<close>: the search from the start cells with no key and an empty table.\<close>

definition initial :: "maze \<Rightarrow> state" where
  "initial m = \<lparr>cells = maze_start m, keys = 0\<rparr>"

definition solveMaze :: "nat \<Rightarrow> byte list list \<Rightarrow> error + int" where
  "solveMaze n ls =
     (case readMaze ls of
        Inl e \<Rightarrow> Inl e
      | Inr m \<Rightarrow>
          (case shortestPath n m (initial m) Map.empty of
             Inl e \<Rightarrow> Inl e
           | Inr (r, t) \<Rightarrow> Inr r))"

text \<open>The lines of a maze, written as text.\<close>

definition bytes :: "string \<Rightarrow> byte list" where
  "bytes s = map of_char s"

definition scenario1 :: "byte list list" where
  "scenario1 = map bytes [''#########'', ''#b.A.@.a#'', ''#########'']"

text \<open>
  \<open>below f g\<close>: wherever the search \<open>f\<close> returns, \<open>g\<close> returns the same. It compares
  the search at two recursion bounds.
\<close>

definition below :: "search \<Rightarrow> search \<Rightarrow> bool" where
  "below f g = (\<forall>s t r. f s t = Inr r \<longrightarrow> g s t = Inr r)"

text \<open>
  The test that makes the inner loop of \<open>shortestPath\<close> \<open>continue\<close> at the path \<open>p\<close>, and
  the states none of whose paths passes it.
\<close>

definition skipped :: "heap \<Rightarrow> state \<Rightarrow> path \<Rightarrow> bool" where
  "skipped a s p =
     (case deref a (dest p) of
        None \<Rightarrow> False
      | Some d \<Rightarrow> keyset_contains (state.keys s) (char d)
                  \<or> \<not> keyset_containsAll (state.keys s) (reqKeys p))"



text \<open>
  The adjacency relation of the heap: \<open>q\<close> is in the adjacency list of the cell at \<open>p\<close>.
  The grid position of the pointer \<open>p\<close> in a maze of width \<open>wd\<close> is row \<open>p div wd\<close>,
  column \<open>p mod wd\<close>; \<open>orthogonal\<close> says that two positions differ by exactly one row
  or exactly one column.
\<close>

definition adjacent :: "heap \<Rightarrow> ref \<Rightarrow> ref \<Rightarrow> bool" where
  "adjacent a p q = (\<exists>c. deref a p = Some c \<and> q \<in> set (adj c))"

definition orthogonal :: "nat \<Rightarrow> ref \<Rightarrow> ref \<Rightarrow> bool" where
  "orthogonal wd p q =
     ((p div wd = q div wd \<and> (p mod wd = q mod wd + 1 \<or> q mod wd = p mod wd + 1))
      \<or> (p mod wd = q mod wd \<and> (p div wd = q div wd + 1 \<or> q div wd = p div wd + 1)))"

text \<open>The neighbours that \<open>addCell\<close> joins the cell at row \<open>i\<close>, column \<open>j\<close> to.\<close>

definition joined :: "maze \<Rightarrow> nat \<Rightarrow> nat \<Rightarrow> ref set" where
  "joined m i j =
     {q. deref (rows m) q \<noteq> None \<and>
        ((0 < i \<and> q = (i - 1) * w m + j) \<or> (0 < j \<and> q = i * w m + (j - 1))
         \<or> (i + 1 < h m \<and> q = (i + 1) * w m + j) \<or> (j + 1 < w m \<and> q = i * w m + (j + 1)))}"

text \<open>The invariant of the maze under construction.\<close>

definition gridInv :: "maze \<Rightarrow> bool" where
  "gridInv m \<longleftrightarrow>
     length (rows m) = w m * h m
     \<and> (\<forall>x y. adjacent (rows m) x y \<longrightarrow>
           adjacent (rows m) y x \<and> orthogonal (w m) x y)"

text \<open>What \<open>findPaths\<close> reads of the heap: all of a cell but its path list.\<close>

definition skeleton :: "heap \<Rightarrow> (byte \<times> ref list \<times> cellType) option list" where
  "skeleton a = map (map_option (\<lambda>c. (char c, adj c, cellType c))) a"

section \<open>The state as Go stores it\<close>

text \<open>
  In Go the field \<open>cells\<close> of a \<open>state\<close> is a slice: a reference to a backing array, which
  a copy of the struct shares. To speak of what \<open>shortestPath\<close> writes, the search is
  modelled a second time over a store of backing arrays: \<open>cells_at\<close> is the address of
  the array of \<open>s.cells\<close> (the slice is the whole array), \<open>make\<close> allocates at the end of
  the store. \<open>state.copy\<close> allocates an array and copies \<open>s.cells\<close> into it;
  \<open>nextState.cells[i] = path.dest\<close> writes into the array of \<open>nextState\<close>.
\<close>

type_synonym store = "ref list list"

record state_h =
  cells_at :: nat
  keys_h :: keyset

type_synonym search_h = "state_h \<Rightarrow> store \<Rightarrow> table \<Rightarrow> error + (int \<times> store \<times> table)"

definition sliceAt :: "store \<Rightarrow> nat \<Rightarrow> ref list option" where
  "sliceAt st p = (if p < length st then Some (st ! p) else None)"

definition elemAt :: "ref list \<Rightarrow> nat \<Rightarrow> ref option" where
  "elemAt cs i = (if i < length cs then Some (cs ! i) else None)"

definition state_copy_h :: "store \<Rightarrow> state_h \<Rightarrow> ref list \<Rightarrow> store \<times> state_h" where
  "state_copy_h st s cs = (st @ [cs], \<lparr>cells_at = length st, keys_h = keys_h s\<rparr>)"

definition setCell :: "store \<Rightarrow> state_h \<Rightarrow> nat \<Rightarrow> ref \<Rightarrow> store" where
  "setCell st s i c = st[cells_at s := (st ! cells_at s)[i := c]]"

text \<open>
  The loops and \<open>shortestPath\<close> over the store. \<open>for i, cell := range s.cells\<close> fixes the
  number of iterations \<open>k\<close> when the loop starts and reads \<open>s.cells[i]\<close> from the array
  in each iteration.
\<close>

fun pathsLoop_h :: "search_h \<Rightarrow> heap \<Rightarrow> state_h \<Rightarrow> nat \<Rightarrow> path list \<Rightarrow> int \<times> store \<times> table
    \<Rightarrow> error + (int \<times> store \<times> table)" where
  "pathsLoop_h rec a s i [] (mn, st, t) = Inr (mn, st, t)"
| "pathsLoop_h rec a s i (p # ps) (mn, st, t) =
     (case deref a (dest p) of
        None \<Rightarrow> Inl NilDereference
      | Some d \<Rightarrow>
          if keyset_contains (keys_h s) (char d)
             \<or> \<not> keyset_containsAll (keys_h s) (reqKeys p)
          then pathsLoop_h rec a s i ps (mn, st, t)
          else
            (case sliceAt st (cells_at s) of
               None \<Rightarrow> Inl NilDereference
             | Some cs \<Rightarrow>
                 let (st1, nextState) = state_copy_h st s cs;
                     st2 = setCell st1 nextState i (dest p);
                     nextState' = nextState\<lparr>keys_h := keyset_plus (keys_h s) (char d)\<rparr>
                 in (case rec nextState' st2 t of
                       Inl e \<Rightarrow> Inl e
                     | Inr (r, st', t') \<Rightarrow>
                         pathsLoop_h rec a s i ps (updMin mn (len p + r), st', t'))))"

fun cellsLoop_h :: "search_h \<Rightarrow> heap \<Rightarrow> state_h \<Rightarrow> nat \<Rightarrow> nat \<Rightarrow> int \<times> store \<times> table
    \<Rightarrow> error + (int \<times> store \<times> table)" where
  "cellsLoop_h rec a s i 0 (mn, st, t) = Inr (mn, st, t)"
| "cellsLoop_h rec a s i (Suc k) (mn, st, t) =
     (case sliceAt st (cells_at s) of
        None \<Rightarrow> Inl NilDereference
      | Some cs \<Rightarrow>
          (case elemAt cs i of
             None \<Rightarrow> Inl IndexOutOfRange
           | Some c \<Rightarrow>
               (case deref a c of
                  None \<Rightarrow> Inl NilDereference
                | Some cl \<Rightarrow>
                    (case pathsLoop_h rec a s i (paths cl) (mn, st, t) of
                       Inl e \<Rightarrow> Inl e
                     | Inr acc \<Rightarrow> cellsLoop_h rec a s (Suc i) k acc))))"

primrec shortestPath_h :: "nat \<Rightarrow> maze \<Rightarrow> state_h \<Rightarrow> store \<Rightarrow> table
    \<Rightarrow> error + (int \<times> store \<times> table)" where
  "shortestPath_h 0 m s st t = Inl OutOfFuel"
| "shortestPath_h (Suc n) m s st t =
     (case sliceAt st (cells_at s) of
        None \<Rightarrow> Inl NilDereference
      | Some cs \<Rightarrow>
          (case state_String (rows m) \<lparr>cells = cs, keys = keys_h s\<rparr> of
             Inl e \<Rightarrow> Inl e
           | Inr stateKey \<Rightarrow>
               if keys_h s = maze.keys m then Inr (0, st, t)
               else
                 (case t stateKey of
                    Some d \<Rightarrow> Inr (d, st, t)
                  | None \<Rightarrow>
                      (case cellsLoop_h (shortestPath_h n m) (rows m) s 0 (length cs) (0, st, t) of
                         Inl e \<Rightarrow> Inl e
                       | Inr (mn, st', t') \<Rightarrow> Inr (mn, st', t'(stateKey \<mapsto> mn))))))"

text \<open>
  \<open>frame f\<close>: the search \<open>f\<close> only allocates: the store it returns is the store it got,
  followed by new arrays. \<open>refines f g\<close>: moreover \<open>f\<close> returns what the search \<open>g\<close> over
  states as values returns on the contents of \<open>s.cells\<close>.
\<close>

definition frame :: "search_h \<Rightarrow> bool" where
  "frame f = (\<forall>s st t r st' t'. f s st t = Inr (r, st', t') \<longrightarrow> (\<exists>ext. st' = st @ ext))"

definition value_h :: "error + (int \<times> store \<times> table) \<Rightarrow> error + (int \<times> table)" where
  "value_h x = (case x of Inl e \<Rightarrow> Inl e | Inr (r, st, t) \<Rightarrow> Inr (r, t))"

definition stateOf :: "state_h \<Rightarrow> ref list \<Rightarrow> state" where
  "stateOf s cs = \<lparr>cells = cs, keys = keys_h s\<rparr>"

definition refines :: "search_h \<Rightarrow> search \<Rightarrow> bool" where
  "refines f g \<longleftrightarrow>
     frame f \<and> (\<forall>s st t cs. sliceAt st (cells_at s) = Some cs \<longrightarrow> g (stateOf s cs) t = value_h (f s st t))"

section \<open>The search without the memo table\<close>

text \<open>
  The recursive definition of \<open>shortestPath\<close> with the memoization removed: no state key,
  no table lookup and no store; the loops thread \<open>min\<close> only.
\<close>

type_synonym plain = "state \<Rightarrow> error + int"

fun pathsLoopNoMemo :: "plain \<Rightarrow> heap \<Rightarrow> state \<Rightarrow> nat \<Rightarrow> path list \<Rightarrow> int \<Rightarrow> error + int" where
  "pathsLoopNoMemo rec a s i [] mn = Inr mn"
| "pathsLoopNoMemo rec a s i (p # ps) mn =
     (case deref a (dest p) of
        None \<Rightarrow> Inl NilDereference
      | Some d \<Rightarrow>
          if keyset_contains (state.keys s) (char d)
             \<or> \<not> keyset_containsAll (state.keys s) (reqKeys p)
          then pathsLoopNoMemo rec a s i ps mn
          else
            (case rec (nextState s i (dest p) d) of
               Inl e \<Rightarrow> Inl e
             | Inr r \<Rightarrow> pathsLoopNoMemo rec a s i ps (updMin mn (len p + r))))"

fun cellsLoopNoMemo :: "plain \<Rightarrow> heap \<Rightarrow> state \<Rightarrow> nat \<Rightarrow> ref list \<Rightarrow> int \<Rightarrow> error + int" where
  "cellsLoopNoMemo rec a s i [] mn = Inr mn"
| "cellsLoopNoMemo rec a s i (c # cs) mn =
     (case deref a c of
        None \<Rightarrow> Inl NilDereference
      | Some cl \<Rightarrow>
          (case pathsLoopNoMemo rec a s i (paths cl) mn of
             Inl e \<Rightarrow> Inl e
           | Inr mn' \<Rightarrow> cellsLoopNoMemo rec a s (Suc i) cs mn'))"

primrec shortestPathNoMemo :: "nat \<Rightarrow> maze \<Rightarrow> state \<Rightarrow> error + int" where
  "shortestPathNoMemo 0 m s = Inl OutOfFuel"
| "shortestPathNoMemo (Suc n) m s =
     (if state.keys s = maze.keys m then Inr 0
      else cellsLoopNoMemo (shortestPathNoMemo n m) (rows m) s 0 (cells s) 0)"

text \<open>A maze with two cells of the key \<open>a\<close>.\<close>

definition dupKey :: "byte list list" where
  "dupKey = [bytes ''#a@.a....b#'']"

text \<open>
  \<open>allDests\<close>: the destinations of all the paths of all the cells. \<open>distinctLandmarks a s\<close>:
  for each agent of \<open>s\<close>, the agent's cell and the destinations carry pairwise distinct
  characters. \<open>stays a s0 s\<close>: \<open>s\<close> has the agents of \<open>s0\<close>, each at its cell in \<open>s0\<close> or at
  a destination: the states that the search from \<open>s0\<close> can come to.
\<close>

definition allDests :: "heap \<Rightarrow> ref list" where
  "allDests a = concat (map (\<lambda>co. case co of None \<Rightarrow> [] | Some c \<Rightarrow> map dest (paths c)) a)"

definition charAt :: "heap \<Rightarrow> ref \<Rightarrow> byte option" where
  "charAt a p = map_option char (deref a p)"

definition distinctLandmarks :: "heap \<Rightarrow> state \<Rightarrow> bool" where
  "distinctLandmarks a s =
     list_all (\<lambda>c0. distinct (map (charAt a) (remdups (c0 # allDests a)))) (cells s)"

definition stays :: "heap \<Rightarrow> state \<Rightarrow> state \<Rightarrow> bool" where
  "stays a s0 s \<longleftrightarrow>
     length (cells s) = length (cells s0)
     \<and> (\<forall>i < length (cells s). cells s ! i = cells s0 ! i \<or> cells s ! i \<in> set (allDests a))"

text \<open>
  \<open>sound m s0 t\<close>: what the table \<open>t\<close> holds under the key of a state is what the search
  without the table returns on that state. \<open>agrees m s0 f\<close>: on a sound table the search
  \<open>f\<close> returns what the search without the table returns, and leaves the table sound.
\<close>

definition sound :: "maze \<Rightarrow> state \<Rightarrow> table \<Rightarrow> bool" where
  "sound m s0 t \<longleftrightarrow>
     (\<forall>s k v. stays (rows m) s0 s \<and> state_String (rows m) s = Inr k \<and> t k = Some v
        \<longrightarrow> (\<exists>n. shortestPathNoMemo n m s = Inr v))"

definition belowNoMemo :: "plain \<Rightarrow> plain \<Rightarrow> bool" where
  "belowNoMemo f g = (\<forall>s r. f s = Inr r \<longrightarrow> g s = Inr r)"

definition agrees :: "maze \<Rightarrow> state \<Rightarrow> search \<Rightarrow> bool" where
  "agrees m s0 f \<longleftrightarrow>
     (\<forall>s t v t'. stays (rows m) s0 s \<and> sound m s0 t \<and> f s t = Inr (v, t')
        \<longrightarrow> (\<exists>n. shortestPathNoMemo n m s = Inr v) \<and> sound m s0 t')"

section \<open>Distance in the adjacency graph\<close>

text \<open>
  \<open>hops a src n v\<close>: a walk of \<open>n\<close> steps along the adjacency lists leads from \<open>src\<close> to
  \<open>v\<close>. \<open>distance\<close> is the least number of steps of such a walk, the shortest hop count.
\<close>

inductive hops :: "heap \<Rightarrow> ref \<Rightarrow> nat \<Rightarrow> ref \<Rightarrow> bool" for a :: heap and src :: ref where
  hops_0: "hops a src 0 src"
| hops_Suc: "hops a src n v \<Longrightarrow> adjacent a v x \<Longrightarrow> hops a src (Suc n) x"

definition reachable :: "heap \<Rightarrow> ref \<Rightarrow> ref \<Rightarrow> bool" where
  "reachable a u v = (\<exists>n. hops a u n v)"

definition distance :: "heap \<Rightarrow> ref \<Rightarrow> ref \<Rightarrow> nat" where
  "distance a u v = (LEAST n. hops a u n v)"

text \<open>The key cells, the heaps without a door cell, the cells that \<open>buildPaths\<close> gives paths.\<close>

definition isKey :: "heap \<Rightarrow> ref \<Rightarrow> bool" where
  "isKey a p = (case deref a p of None \<Rightarrow> False | Some c \<Rightarrow> cellType c = key)"

definition noDoors :: "heap \<Rightarrow> bool" where
  "noDoors a = list_all (\<lambda>co. case co of None \<Rightarrow> True | Some c \<Rightarrow> cellType c \<noteq> door) a"

definition landmark :: "cell \<Rightarrow> bool" where
  "landmark c \<longleftrightarrow> cellType c = key \<or> cellType c = start"

text \<open>
  The invariant of the loop of \<open>findPaths\<close>, for the queue \<open>q\<close> and the paths \<open>ps\<close> found so
  far: a path of the queue or of \<open>ps\<close> has the length of a shortest walk to its
  destination (\<open>exact\<close>); the lengths in the queue increase, by at most one from the
  first to the last; the neighbours of a cell that has left the queue are seen; no
  destination occurs twice; \<open>ps\<close> holds the key cells that have left the queue.
\<close>

definition exact :: "heap \<Rightarrow> ref \<Rightarrow> path \<Rightarrow> bool" where
  "exact a src p \<longleftrightarrow>
     0 \<le> len p \<and> hops a src (nat (len p)) (dest p)
     \<and> (\<forall>n. hops a src n (dest p) \<longrightarrow> nat (len p) \<le> n)"

definition bfsInv :: "heap \<Rightarrow> ref \<Rightarrow> ref set \<Rightarrow> path list \<Rightarrow> path list \<Rightarrow> bool" where
  "bfsInv a src seen q ps \<longleftrightarrow>
     src \<in> seen
     \<and> dest ` set q \<subseteq> seen \<and> dest ` set ps \<subseteq> seen
     \<and> (\<forall>p \<in> set q \<union> set ps. exact a src p)
     \<and> sorted (map len q) \<and> (q \<noteq> [] \<longrightarrow> len (last q) \<le> len (hd q) + 1)
     \<and> (\<forall>v \<in> seen. v \<notin> dest ` set q \<longrightarrow> (\<forall>x. adjacent a v x \<longrightarrow> x \<in> seen))
     \<and> distinct (map dest (ps @ q))
     \<and> (\<forall>p \<in> set ps. isKey a (dest p))
     \<and> (\<forall>v \<in> seen. v \<notin> dest ` set q \<longrightarrow> isKey a v \<longrightarrow> v \<in> dest ` set ps)"

text \<open>
  What \<open>addCell\<close> and \<open>buildPaths\<close> keep of a cell, and the invariant of the cells of the
  maze under construction: the type of a cell is the type that \<open>newCell\<close> gives its
  character, and the keyset of the maze contains the key of every key cell.
\<close>

definition fieldsAt :: "heap \<Rightarrow> ref \<Rightarrow> (byte \<times> cellType \<times> path list) option" where
  "fieldsAt a x = map_option (\<lambda>c. (char c, cellType c, paths c)) (deref a x)"

definition cellsInv :: "maze \<Rightarrow> bool" where
  "cellsInv m \<longleftrightarrow>
     (\<forall>x c. deref (rows m) x = Some c \<longrightarrow>
        cellType c = cellType (newCell (char c))
        \<and> (cellType c = key \<longrightarrow> keyset_contains (maze.keys m) (char c)))"

text \<open>A maze with one key, two steps from the start.\<close>

definition oneKey :: "byte list list" where
  "oneKey = [bytes ''#@.a#'']"

section \<open>keyset is a set of letters\<close>

lemma keyset_contains_bit: "keyset_contains k c = bit k (unat (c - 97))"
  by (simp add: keyset_contains_def bit_iff_odd_drop_bit and_one_eq mod_2_eq_odd)

lemma keyset_plus_bit:
  "bit (keyset_plus k c) n = (bit k n \<or> (n = unat (c - 97) \<and> n < 64))"
  by (auto simp: keyset_plus_def bit_or_iff bit_exp_iff)

lemma keyset_containsAll_bit:
  "keyset_containsAll k ks = (\<forall>n. bit ks n \<longrightarrow> bit k n)"
proof
  assume "keyset_containsAll k ks"
  then have "bit (k AND ks) n = bit ks n" for n
    by (simp add: keyset_containsAll_def)
  then show "\<forall>n. bit ks n \<longrightarrow> bit k n"
    by (auto simp: bit_and_iff)
next
  assume "\<forall>n. bit ks n \<longrightarrow> bit k n"
  then have "k AND ks = ks"
    by (intro bit_word_eqI) (auto simp: bit_and_iff)
  then show "keyset_containsAll k ks"
    by (simp add: keyset_containsAll_def)
qed

lemma letter_index: "97 \<le> c \<Longrightarrow> c \<le> 122 \<Longrightarrow> unat (c - 97 :: byte) < 26"
  by (simp add: word_le_nat_alt unat_sub)

lemma index_inj: "unat (c - 97 :: byte) = unat (d - 97) \<Longrightarrow> c = d"
  by (metis diff_add_cancel word_eq_iff_unsigned)

lemma index_letter:
  assumes "n < 26"
  shows "\<exists>c::byte. 97 \<le> c \<and> c \<le> 122 \<and> unat (c - 97) = n"
proof -
  let ?c = "97 + of_nat n :: byte"
  have u: "unat ?c = 97 + n"
    using assms by (simp add: unat_word_ariths unat_of_nat)
  have le: "97 \<le> ?c" "?c \<le> 122"
    using assms u by (simp_all add: word_le_nat_alt)
  have "unat (?c - 97) = n"
    using assms by (simp add: unat_of_nat)
  with le show ?thesis by blast
qed

lemma small_bits:
  assumes "(ks :: keyset) < 2 ^ 26" and "bit ks n"
  shows "n < 26"
proof -
  have "ks AND mask 26 = ks"
    using assms(1) by (rule less_mask_eq)
  with assms(2) have "bit (ks AND mask 26) n"
    by (simp only:)
  then show ?thesis
    by (simp add: bit_and_iff bit_mask_iff)
qed

lemma bit_26: "bit (push_bit 26 1 :: keyset) n = (n = 26)"
  by (auto simp only: bit_push_bit_iff bit_1_iff possible_bit_word len_bit0 len_num1)

lemma containsAll_letters:
  assumes "ks < 2 ^ 26"
  shows "keyset_containsAll k ks =
    (\<forall>l. 97 \<le> l \<and> l \<le> 122 \<and> keyset_contains ks l \<longrightarrow> keyset_contains k l)"
proof
  assume "keyset_containsAll k ks"
  then show "\<forall>l. 97 \<le> l \<and> l \<le> 122 \<and> keyset_contains ks l \<longrightarrow> keyset_contains k l"
    by (simp add: keyset_containsAll_bit keyset_contains_bit)
next
  assume r: "\<forall>l. 97 \<le> l \<and> l \<le> 122 \<and> keyset_contains ks l \<longrightarrow> keyset_contains k l"
  have "bit k n" if "bit ks n" for n
  proof -
    from small_bits [OF assms that] obtain l :: byte
      where l: "97 \<le> l" "l \<le> 122" "unat (l - 97) = n"
      using index_letter by blast
    with that r show ?thesis
      by (auto simp: keyset_contains_bit)
  qed
  then show "keyset_containsAll k ks"
    by (simp add: keyset_containsAll_bit)
qed

text \<open>
  C7 (as stated, refuted). The keyset \<open>1 << 26\<close> contains no lower-case letter, so every
  letter it contains is in the empty keyset; yet \<open>containsAll\<close> of the empty keyset
  and \<open>1 << 26\<close> is false: the subset test compares all the bits of the \<open>uint\<close>, not only
  the 26 bits of the letters.
\<close>

theorem keyset_containsAll_counterexample:
  "\<not> (\<exists>l. 97 \<le> l \<and> l \<le> 122 \<and> keyset_contains (push_bit 26 1) l)
   \<and> \<not> keyset_containsAll 0 (push_bit 26 1)"
proof -
  have "\<not> keyset_contains (push_bit 26 1) l" if "97 \<le> l" "l \<le> 122" for l
    using letter_index [OF that] by (simp only: keyset_contains_bit bit_26)
  moreover have "\<not> keyset_containsAll 0 (push_bit 26 1)"
    by (simp add: keyset_containsAll_def)
  ultimately show ?thesis by blast
qed

text \<open>
  C7 (amended). For lower-case letters \<open>c\<close> and \<open>d\<close> and every keyset \<open>k\<close>:
  \<open>k.plus(c).contains(c)\<close> is true; \<open>k.plus(c).contains(d)\<close> equals \<open>k.contains(d)\<close> when
  \<open>d\<close> differs from \<open>c\<close>; and for every keyset \<open>ks\<close> with no bit set outside the 26 bits
  of the letters (\<open>ks < 2^26\<close>), \<open>k.containsAll(ks)\<close> is true if and only if every letter
  contained in \<open>ks\<close> is contained in \<open>k\<close>.
\<close>

theorem keyset_set_semantics:
  assumes "97 \<le> c" and "c \<le> 122" and "97 \<le> d" and "d \<le> 122"
  shows "keyset_contains (keyset_plus k c) c
    \<and> (d \<noteq> c \<longrightarrow> keyset_contains (keyset_plus k c) d = keyset_contains k d)
    \<and> (ks < 2 ^ 26 \<longrightarrow>
         keyset_containsAll k ks =
           (\<forall>l. 97 \<le> l \<and> l \<le> 122 \<and> keyset_contains ks l \<longrightarrow> keyset_contains k l))"
proof (intro conjI impI)
  have "unat (c - 97) < 64"
    using letter_index [OF assms(1,2)] by simp
  then show "keyset_contains (keyset_plus k c) c"
    by (simp add: keyset_contains_bit keyset_plus_bit)
next
  assume "d \<noteq> c"
  then have "unat (d - 97) \<noteq> unat (c - 97)"
    using index_inj by blast
  then show "keyset_contains (keyset_plus k c) d = keyset_contains k d"
    by (simp add: keyset_contains_bit keyset_plus_bit)
next
  assume "ks < 2 ^ 26"
  then show "keyset_containsAll k ks =
      (\<forall>l. 97 \<le> l \<and> l \<le> 122 \<and> keyset_contains ks l \<longrightarrow> keyset_contains k l)"
    by (rule containsAll_letters)
qed

theorem keyset_set_semantics_witness:
  "keyset_contains (keyset_plus 5 98) 98
   \<and> keyset_contains (keyset_plus 5 98) 97 = keyset_contains 5 97
   \<and> keyset_containsAll 5 1 =
       (\<forall>l. 97 \<le> l \<and> l \<le> 122 \<and> keyset_contains 1 l \<longrightarrow> keyset_contains 5 l)"
  using keyset_set_semantics [where c = 98 and d = 97 and k = 5 and ks = 1]
  by simp

section \<open>The recursion bound\<close>

lemma pathsLoop_mono:
  "below f g \<Longrightarrow> pathsLoop f a s i ps acc = Inr r \<Longrightarrow> pathsLoop g a s i ps acc = Inr r"
proof (induction ps arbitrary: acc)
  case Nil
  then show ?case by (cases acc) auto
next
  case (Cons p ps)
  obtain mn t where acc: "acc = (mn, t)" by (cases acc)
  show ?case
    using Cons.prems Cons.IH [OF Cons.prems(1)] unfolding acc
    by (auto simp: below_def split: option.splits sum.splits if_splits)
qed

lemma cellsLoop_mono:
  "below f g \<Longrightarrow> cellsLoop f a s i cs acc = Inr r \<Longrightarrow> cellsLoop g a s i cs acc = Inr r"
proof (induction cs arbitrary: acc i)
  case Nil
  then show ?case by (cases acc) auto
next
  case (Cons c cs)
  obtain mn t where acc: "acc = (mn, t)" by (cases acc)
  show ?case
    using Cons.prems Cons.IH [OF Cons.prems(1)] pathsLoop_mono [OF Cons.prems(1)] unfolding acc
    by (auto split: option.splits sum.splits)
qed

lemma shortestPath_Suc:
  "shortestPath n m s t = Inr r \<Longrightarrow> shortestPath (Suc n) m s t = Inr r"
proof (induction n arbitrary: s t r)
  case 0
  then show ?case by simp
next
  case (Suc n)
  have b: "below (shortestPath n m) (shortestPath (Suc n) m)"
    unfolding below_def using Suc.IH by blast
  show ?case
    using Suc.prems cellsLoop_mono [OF b]
    by (subst shortestPath.simps) (auto split: sum.splits option.splits if_splits)
qed

lemma shortestPath_fuel:
  "shortestPath n m s t = Inr r \<Longrightarrow> shortestPath (n + k) m s t = Inr r"
  by (induction k) (auto dest: shortestPath_Suc)


lemma solveMaze_Inr:
  "solveMaze n ls = Inr r \<longleftrightarrow>
     (\<exists>m t. readMaze ls = Inr m \<and> shortestPath n m (initial m) Map.empty = Inr (r, t))"
  by (auto simp: solveMaze_def split: sum.splits)

lemma solveMaze_fuel: "solveMaze n ls = Inr r \<Longrightarrow> solveMaze (n + k) ls = Inr r"
  unfolding solveMaze_Inr by (blast dest: shortestPath_fuel)

lemma scenario1_3: "solveMaze 3 scenario1 = Inr 8"
  by code_simp


section \<open>Concrete scenario 1\<close>

text \<open>
  C1. For the maze of the rows \<open>#########\<close>, \<open>#b.A.@.a#\<close>, \<open>#########\<close>, the search from
  the start cell with the empty keyset and an empty memo table returns 8: at the
  recursion bound 3 and at every larger one.
\<close>

theorem scenario1_returns_8: "solveMaze (3 + k) scenario1 = Inr 8"
  using scenario1_3 by (rule solveMaze_fuel)

theorem scenario1_returns_8_witness:
  "\<exists>m t. readMaze scenario1 = Inr m
     \<and> shortestPath 5 m \<lparr>cells = maze_start m, keys = 0\<rparr> Map.empty = Inr (8, t)"
  using scenario1_returns_8 [of 2] by (simp add: solveMaze_Inr initial_def)

section \<open>Two runs\<close>



section \<open>The recursive step\<close>

lemma pathsLoop_filter:
  "pathsLoop rec a s i ps acc = pathsLoop rec a s i (filter (\<lambda>p. \<not> skipped a s p) ps) acc"
proof (induction ps arbitrary: acc)
  case Nil
  show ?case by simp
next
  case (Cons p ps)
  obtain mn t where acc: "acc = (mn, t)" by (cases acc)
  show ?case
    unfolding acc using Cons.IH
    by (auto simp: skipped_def split: option.splits sum.splits)
qed

lemma pathsLoop_skipped:
  "list_all (skipped a s) ps \<Longrightarrow> pathsLoop rec a s i ps acc = Inr acc"
  by (subst pathsLoop_filter) (cases acc, simp add: list_all_iff filter_empty_conv [THEN iffD2])

lemma cellsLoop_noEligible:
  "list_all (\<lambda>c. case deref a c of None \<Rightarrow> False | Some cl \<Rightarrow> list_all (skipped a s) (paths cl)) cs
    \<Longrightarrow> cellsLoop rec a s i cs acc = Inr acc"
proof (induction cs arbitrary: i)
  case Nil
  show ?case by (cases acc) simp
next
  case (Cons c cs)
  then show ?case
    by (cases acc) (auto simp: pathsLoop_skipped split: option.splits)
qed

text \<open>
  C6. In the inner loop of \<open>shortestPath\<close>, a path \<open>p\<close> (to the cell \<open>d\<close>) of the agent \<open>i\<close>
  yields the candidate \<open>p.len + shortestPath(m, nextState, table)\<close> if the key of \<open>d\<close> is not
  in the keyset of the state and the keyset contains all of \<open>p.reqKeys\<close>; otherwise the
  loop goes on to the next path with \<open>min\<close> and the table as they were, and no recursive
  call is made. Over the whole path list, the loop does what it does on the paths that
  are not skipped.
\<close>

theorem path_contributes_iff_eligible:
  assumes "deref a (dest p) = Some d"
  shows "pathsLoop rec a s i (p # ps) (mn, t) =
      (if \<not> keyset_contains (state.keys s) (char d)
          \<and> keyset_containsAll (state.keys s) (reqKeys p)
       then (case rec (nextState s i (dest p) d) t of
               Inl e \<Rightarrow> Inl e
             | Inr (r, t') \<Rightarrow> pathsLoop rec a s i ps (updMin mn (len p + r), t'))
       else pathsLoop rec a s i ps (mn, t))
    \<and> pathsLoop rec a s i qs acc
        = pathsLoop rec a s i (filter (\<lambda>p. \<not> skipped a s p) qs) acc"
  using assms pathsLoop_filter [of rec a s i qs acc] by simp

theorem path_contributes_iff_eligible_witness:
  "deref [Some (newCell 98)] (dest \<lparr>len = 3, dest = 0, reqKeys = 0\<rparr>) = Some (newCell 98)
   \<and> pathsLoop (\<lambda>s t. Inr (4, t)) [Some (newCell 98)] \<lparr>cells = [0], keys = 0\<rparr> 0
        [\<lparr>len = 3, dest = 0, reqKeys = 0\<rparr>] (0, Map.empty) = Inr (7, Map.empty)
   \<and> pathsLoop (\<lambda>s t. Inr (4, t)) [Some (newCell 98)] \<lparr>cells = [0], keys = 2\<rparr> 0
        [\<lparr>len = 3, dest = 0, reqKeys = 0\<rparr>] (0, Map.empty) = Inr (0, Map.empty)"
  using path_contributes_iff_eligible [of "[Some (newCell 98)]" "\<lparr>len = 3, dest = 0, reqKeys = 0\<rparr>"
      "newCell 98" "\<lambda>s t. Inr (4, t)" "\<lparr>cells = [0], keys = 0\<rparr>" 0 "[]" 0 Map.empty "[]" "(0, Map.empty)"]
    path_contributes_iff_eligible [of "[Some (newCell 98)]" "\<lparr>len = 3, dest = 0, reqKeys = 0\<rparr>"
      "newCell 98" "\<lambda>s t. Inr (4, t)" "\<lparr>cells = [0], keys = 2\<rparr>" 0 "[]" 0 Map.empty "[]" "(0, Map.empty)"]
  by (simp add: deref_def newCell_def keyset_contains_def keyset_containsAll_def updMin_def)




section \<open>The path list of a key cell\<close>

lemma dest_extendPath: "dest (extendPath cur x cx) = x"
  by (simp add: extendPath_def Let_def)

lemma len_extendPath: "len (extendPath cur x cx) = len cur + 1"
  by (simp add: extendPath_def Let_def)

lemma visitAdj_news:
  "visitAdj a cur xs (seen, q) = Inr (seen', q') \<Longrightarrow>
     seen \<subseteq> seen' \<and> (\<exists>news. q' = q @ news \<and> dest ` set news \<subseteq> seen' - seen)"
proof (induction xs arbitrary: seen q)
  case Nil
  then show ?case by simp
next
  case (Cons x xs)
  show ?case
  proof (cases "x \<in> seen")
    case True
    with Cons show ?thesis by simp
  next
    case False
    with Cons.prems obtain cx where
      rec: "visitAdj a cur xs (insert x seen, q @ [extendPath cur x cx]) = Inr (seen', q')"
      by (auto split: option.splits)
    from Cons.IH [OF rec] obtain news where
      "insert x seen \<subseteq> seen'" "q' = (q @ [extendPath cur x cx]) @ news"
      "dest ` set news \<subseteq> seen' - insert x seen"
      by blast
    with False show ?thesis
      by (intro conjI exI [of _ "extendPath cur x cx # news"]) (auto simp: dest_extendPath)
  qed
qed

lemma bfs_appends:
  "bfs a seen q ps = Inr res \<Longrightarrow> c \<in> seen \<Longrightarrow> c \<notin> dest ` set q \<Longrightarrow>
     \<exists>more. res = ps @ more \<and> c \<notin> dest ` set more"
proof (induction a seen q ps arbitrary: res rule: bfs.induct)
  case (1 a seen ps)
  then show ?case by simp
next
  case (2 a seen current rest ps)
  from "2.prems"(1) obtain cl seen' q' where
    cl: "deref a (dest current) = Some cl" and
    v: "visitAdj a current (adj cl) (seen, current # rest) = Inr (seen', q')" and
    r: "bfs a seen' (tl q') (if cellType cl = key then ps @ [current] else ps) = Inr res"
    by (auto split: option.splits sum.splits)
  from visitAdj_news [OF v] obtain news where
    n: "seen \<subseteq> seen'" "q' = (current # rest) @ news" "dest ` set news \<subseteq> seen' - seen"
    by blast
  have "c \<in> seen'" "c \<notin> dest ` set (tl q')"
    using n "2.prems"(2,3) by auto
  from "2.IH" [OF cl v refl r this] obtain more where
    "res = (if cellType cl = key then ps @ [current] else ps) @ more" "c \<notin> dest ` set more"
    by blast
  with "2.prems"(3) show ?case
    by (cases "cellType cl = key") auto
qed

lemma scenario1_key_a:
  "(case readMaze scenario1 of
      Inl e \<Rightarrow> False
    | Inr m \<Rightarrow>
        (case deref (rows m) 16 of
           None \<Rightarrow> False
         | Some cl \<Rightarrow> cellType cl = key \<and> char cl = 97
             \<and> findPaths (rows m) 16
                 = Inr [\<lparr>len = 0, dest = 16, reqKeys = 0\<rparr>, \<lparr>len = 6, dest = 10, reqKeys = 1\<rparr>]))"
  by code_simp

text \<open>
  C4 (as stated, refuted). In the maze of scenario 1 the cell of the key \<open>a\<close> (row 1,
  column 7: the pointer 16) is a key cell, and \<open>findPaths\<close> from it returns a list whose
  first path has that very cell as its destination: the origin is the first path
  dequeued, and it ends at a key.
\<close>

theorem findPaths_origin_counterexample:
  "\<exists>m cl. readMaze scenario1 = Inr m \<and> deref (rows m) 16 = Some cl \<and> cellType cl = key
     \<and> findPaths (rows m) 16
         = Inr [\<lparr>len = 0, dest = 16, reqKeys = 0\<rparr>, \<lparr>len = 6, dest = 10, reqKeys = 1\<rparr>]"
  using scenario1_key_a by (auto split: sum.splits option.splits)

text \<open>
  C4 (amended). For every key cell \<open>c\<close>, the path list that \<open>findPaths(c)\<close> returns starts
  with the path of length 0 from \<open>c\<close> to \<open>c\<close> itself, with no required key, and holds no
  other path whose destination is \<open>c\<close>: the origin is never enqueued again.
\<close>

theorem findPaths_origin_first:
  assumes "deref a c = Some cl" and "cellType cl = key" and "findPaths a c = Inr ps"
  shows "\<exists>rest. ps = \<lparr>len = 0, dest = c, reqKeys = 0\<rparr> # rest \<and> c \<notin> dest ` set rest"
proof -
  let ?st = "\<lparr>len = 0, dest = c, reqKeys = 0\<rparr>"
  from assms obtain seen' q' where
    v: "visitAdj a ?st (adj cl) ({c}, [?st]) = Inr (seen', q')" and
    r: "bfs a seen' (tl q') [?st] = Inr ps"
    by (auto simp: findPaths_def split: sum.splits)
  from visitAdj_news [OF v] obtain news where
    n: "{c} \<subseteq> seen'" "q' = [?st] @ news" "dest ` set news \<subseteq> seen' - {c}"
    by blast
  then have "c \<in> seen'" "c \<notin> dest ` set (tl q')"
    by auto
  from bfs_appends [OF r this] show ?thesis
    by auto
qed

theorem findPaths_origin_first_witness:
  "\<exists>m cl rest. readMaze scenario1 = Inr m \<and> deref (rows m) 16 = Some cl \<and> cellType cl = key
     \<and> findPaths (rows m) 16 = Inr (\<lparr>len = 0, dest = 16, reqKeys = 0\<rparr> # rest)
     \<and> 16 \<notin> dest ` set rest"
proof -
  from scenario1_key_a obtain m cl ps where
    m: "readMaze scenario1 = Inr m" "deref (rows m) 16 = Some cl" "cellType cl = key"
      "findPaths (rows m) 16 = Inr ps"
    by (auto split: sum.splits option.splits)
  from findPaths_origin_first [OF m(2,3,4)] m show ?thesis
    by auto
qed

section \<open>The adjacency relation that readMaze builds\<close>

lemma pos_divmod:
  "k < wd \<Longrightarrow> q = i * wd + k \<Longrightarrow> q div wd = i \<and> q mod wd = k" for i k q wd :: nat
  by simp

lemma joined_orthogonal:
  assumes "j < w m" and "q \<in> joined m i j"
  shows "orthogonal (w m) (i * w m + j) q \<and> q \<noteq> i * w m + j"
proof -
  have here: "(i * w m + j) div w m = i \<and> (i * w m + j) mod w m = j"
    using assms(1) by (rule pos_divmod) simp
  from assms(2) consider
      "0 < i" "q = (i - 1) * w m + j" | "0 < j" "q = i * w m + (j - 1)"
    | "q = (i + 1) * w m + j" | "j + 1 < w m" "q = i * w m + (j + 1)"
    by (auto simp: joined_def)
  then have "orthogonal (w m) (i * w m + j) q"
  proof cases
    case 1
    from pos_divmod [OF assms(1) 1(2)] here 1(1) show ?thesis
      unfolding orthogonal_def by auto
  next
    case 2
    have "j - 1 < w m" using assms(1) by simp
    from pos_divmod [OF this 2(2)] here 2(1) show ?thesis
      unfolding orthogonal_def by auto
  next
    case 3
    from pos_divmod [OF assms(1) 3] here show ?thesis
      unfolding orthogonal_def by auto
  next
    case 4
    from pos_divmod [OF 4] here show ?thesis
      unfolding orthogonal_def by auto
  qed
  moreover from this here have "q \<noteq> i * w m + j"
    unfolding orthogonal_def by auto
  ultimately show ?thesis ..
qed

lemma orthogonal_joined:
  assumes "j < w m" and "i < h m" and "orthogonal (w m) (i * w m + j) q"
    and "q < w m * h m" and "deref (rows m) q \<noteq> None"
  shows "q \<in> joined m i j"
proof -
  have here: "(i * w m + j) div w m = i \<and> (i * w m + j) mod w m = j"
    using assms(1) by (rule pos_divmod) simp
  have q: "(q div w m) * w m + q mod w m = q"
    by simp
  have qm: "q mod w m < w m"
    using assms(1) by simp
  have qd: "q div w m < h m"
    using assms(1,4) by (simp add: less_mult_imp_div_less mult.commute)
  from assms(3) here consider
      "q div w m = i" "j = q mod w m + 1" | "q div w m = i" "q mod w m = j + 1"
    | "q mod w m = j" "i = q div w m + 1" | "q mod w m = j" "q div w m = i + 1"
    unfolding orthogonal_def by auto
  then show ?thesis
  proof cases
    case 1
    then have "0 < j" "q = i * w m + (j - 1)"
      using q by auto
    with assms(5) show ?thesis by (simp add: joined_def)
  next
    case 2
    then have "j + 1 < w m" "q = i * w m + (j + 1)"
      using q qm by auto
    with assms(5) show ?thesis by (simp add: joined_def)
  next
    case 3
    then have "0 < i" "q = (i - 1) * w m + j"
      using q by auto
    with assms(5) show ?thesis by (simp add: joined_def)
  next
    case 4
    then have "i + 1 < h m" "q = (i + 1) * w m + j"
      using q qd by auto
    with assms(5) show ?thesis by (simp add: joined_def)
  qed
qed

lemma deref_update:
  "deref (a[p := v]) x = (if x = p \<and> p < length a then v else deref a x)"
  by (simp add: deref_def)

lemma deref_Some_length: "deref a p = Some c \<Longrightarrow> p < length a"
  by (simp add: deref_def split: if_splits)

lemma appendAdj_effect:
  assumes "appendAdj a p q = Inr a'"
  shows "length a' = length a"
    and "deref a' x = None \<longleftrightarrow> deref a x = None"
    and "adjacent a' x y \<longleftrightarrow> adjacent a x y \<or> (x = p \<and> y = q)"
proof -
  from assms obtain c where
    c: "deref a p = Some c" and a': "a' = a[p := Some (c\<lparr>adj := adj c @ [q]\<rparr>)]"
    by (auto simp: appendAdj_def split: option.splits)
  note len = deref_Some_length [OF c]
  show "length a' = length a"
    by (simp add: a')
  show "deref a' x = None \<longleftrightarrow> deref a x = None"
    using c len by (simp add: a' deref_update)
  show "adjacent a' x y \<longleftrightarrow> adjacent a x y \<or> (x = p \<and> y = q)"
    using c len by (auto simp: a' adjacent_def deref_update)
qed

lemma cell_join_effect:
  assumes "cell_join a p q = Inr a'"
  shows "length a' = length a"
    and "deref a' x = None \<longleftrightarrow> deref a x = None"
    and "adjacent a' x y \<longleftrightarrow> adjacent a x y \<or> (x = p \<and> y = q) \<or> (x = q \<and> y = p)"
proof -
  from assms obtain b where
    b: "appendAdj a p q = Inr b" "appendAdj b q p = Inr a'"
    by (auto simp: cell_join_def split: sum.splits)
  show "length a' = length a"
    using appendAdj_effect(1) [OF b(1)] appendAdj_effect(1) [OF b(2)] by simp
  show "deref a' x = None \<longleftrightarrow> deref a x = None"
    using appendAdj_effect(2) [OF b(1)] appendAdj_effect(2) [OF b(2)] by simp
  show "adjacent a' x y \<longleftrightarrow> adjacent a x y \<or> (x = p \<and> y = q) \<or> (x = q \<and> y = p)"
    using appendAdj_effect(3) [OF b(1)] appendAdj_effect(3) [OF b(2)] by auto
qed

lemma joinIf_effect:
  assumes "joinIf cond p q a = Inr a'"
  shows "length a' = length a"
    and "deref a' x = None \<longleftrightarrow> deref a x = None"
    and "adjacent a' x y \<longleftrightarrow>
           adjacent a x y \<or> (cond \<and> deref a q \<noteq> None \<and> ((x = p \<and> y = q) \<or> (x = q \<and> y = p)))"
  using assms cell_join_effect [of a p q a']
  by (auto simp: joinIf_def split: if_splits)

lemma maze_addCell_effect:
  assumes "maze_addCell i j c m = Inr m'" and "adj c = []"
    and "length (rows m) = w m * h m"
  shows "i < h m" and "j < w m" and "w m' = w m" and "h m' = h m"
    and "length (rows m') = length (rows m)"
    and "deref (rows m') x = None \<longleftrightarrow> x \<noteq> i * w m + j \<and> deref (rows m) x = None"
    and "adjacent (rows m') x y \<longleftrightarrow>
           (x \<noteq> i * w m + j \<and> adjacent (rows m) x y)
           \<or> (x = i * w m + j \<and> y \<in> joined m i j)
           \<or> (y = i * w m + j \<and> x \<in> joined m i j)"
proof -
  let ?p = "i * w m + j"
  let ?a0 = "(rows m)[?p := Some c]"
  from assms(1) have ij: "i < h m" "j < w m"
    by (auto simp: maze_addCell_def split: if_splits)
  then show "i < h m" "j < w m" .
  have "?p < w m * h m"
  proof -
    have "?p < i * w m + w m" using ij by simp
    also have "\<dots> = w m * Suc i" by simp
    also have "\<dots> \<le> w m * h m" using ij by (intro mult_le_mono2) simp
    finally show ?thesis .
  qed
  then have plen: "?p < length (rows m)"
    using assms(3) by simp
  from assms(1) ij obtain a1 a2 a3 a4 where
    j1: "joinIf (0 < i) ?p ((i - 1) * w m + j) ?a0 = Inr a1" and
    j2: "joinIf (0 < j) ?p (i * w m + (j - 1)) a1 = Inr a2" and
    j3: "joinIf (i + 1 < h m) ?p ((i + 1) * w m + j) a2 = Inr a3" and
    j4: "joinIf (j + 1 < w m) ?p (i * w m + (j + 1)) a3 = Inr a4" and
    m': "m' = m\<lparr>rows := a4,
               maze.keys := (if cellType c = key then keyset_plus (maze.keys m) (char c)
                             else maze.keys m)\<rparr>"
    by (auto simp: maze_addCell_def Let_def split: sum.splits)
  show "w m' = w m" "h m' = h m"
    by (simp_all add: m')
  show "length (rows m') = length (rows m)"
    using joinIf_effect(1) [OF j1] joinIf_effect(1) [OF j2] joinIf_effect(1) [OF j3]
      joinIf_effect(1) [OF j4]
    by (simp add: m')
  have occ0: "deref ?a0 z = None \<longleftrightarrow> z \<noteq> ?p \<and> deref (rows m) z = None" for z
    using plen by (simp add: deref_update)
  have occ1: "deref a1 z = None \<longleftrightarrow> z \<noteq> ?p \<and> deref (rows m) z = None" for z
    using joinIf_effect(2) [OF j1] occ0 by simp
  have occ2: "deref a2 z = None \<longleftrightarrow> z \<noteq> ?p \<and> deref (rows m) z = None" for z
    using joinIf_effect(2) [OF j2] occ1 by simp
  have occ3: "deref a3 z = None \<longleftrightarrow> z \<noteq> ?p \<and> deref (rows m) z = None" for z
    using joinIf_effect(2) [OF j3] occ2 by simp
  have occ4: "deref a4 z = None \<longleftrightarrow> z \<noteq> ?p \<and> deref (rows m) z = None" for z
    using joinIf_effect(2) [OF j4] occ3 by simp
  show "deref (rows m') x = None \<longleftrightarrow> x \<noteq> ?p \<and> deref (rows m) x = None"
    using occ4 by (simp add: m')
  have adj0: "adjacent ?a0 x y \<longleftrightarrow> x \<noteq> ?p \<and> adjacent (rows m) x y"
    using plen assms(2) by (auto simp: adjacent_def deref_update)
  let ?q1 = "(i - 1) * w m + j" and ?q2 = "i * w m + (j - 1)"
  let ?q3 = "(i + 1) * w m + j" and ?q4 = "i * w m + (j + 1)"
  define g1 where "g1 \<longleftrightarrow> 0 < i \<and> deref (rows m) ?q1 \<noteq> None"
  define g2 where "g2 \<longleftrightarrow> 0 < j \<and> deref (rows m) ?q2 \<noteq> None"
  define g3 where "g3 \<longleftrightarrow> i + 1 < h m \<and> deref (rows m) ?q3 \<noteq> None"
  define g4 where "g4 \<longleftrightarrow> j + 1 < w m \<and> deref (rows m) ?q4 \<noteq> None"
  have ne1: "?q1 \<noteq> ?p" if "0 < i"
    using that ij by (cases i) auto
  have ne2: "?q2 \<noteq> ?p" if "0 < j"
    using that by simp
  have ne3: "?q3 \<noteq> ?p"
    using ij by simp
  have ne4: "?q4 \<noteq> ?p"
    by simp
  have c1: "0 < i \<and> deref ?a0 ?q1 \<noteq> None \<longleftrightarrow> g1"
    unfolding g1_def occ0 using ne1 by auto
  have c2: "0 < j \<and> deref a1 ?q2 \<noteq> None \<longleftrightarrow> g2"
    unfolding g2_def occ1 using ne2 by auto
  have c3: "i + 1 < h m \<and> deref a2 ?q3 \<noteq> None \<longleftrightarrow> g3"
    unfolding g3_def occ2 using ne3 by auto
  have c4: "j + 1 < w m \<and> deref a3 ?q4 \<noteq> None \<longleftrightarrow> g4"
    unfolding g4_def occ3 using ne4 by auto
  have s1: "adjacent a1 x y \<longleftrightarrow> (x \<noteq> ?p \<and> adjacent (rows m) x y)
      \<or> (g1 \<and> ((x = ?p \<and> y = ?q1) \<or> (x = ?q1 \<and> y = ?p)))"
    using joinIf_effect(3) [OF j1, of x y] c1 adj0 by blast
  have s2: "adjacent a2 x y \<longleftrightarrow> adjacent a1 x y
      \<or> (g2 \<and> ((x = ?p \<and> y = ?q2) \<or> (x = ?q2 \<and> y = ?p)))"
    using joinIf_effect(3) [OF j2, of x y] c2 by blast
  have s3: "adjacent a3 x y \<longleftrightarrow> adjacent a2 x y
      \<or> (g3 \<and> ((x = ?p \<and> y = ?q3) \<or> (x = ?q3 \<and> y = ?p)))"
    using joinIf_effect(3) [OF j3, of x y] c3 by blast
  have s4: "adjacent a4 x y \<longleftrightarrow> adjacent a3 x y
      \<or> (g4 \<and> ((x = ?p \<and> y = ?q4) \<or> (x = ?q4 \<and> y = ?p)))"
    using joinIf_effect(3) [OF j4, of x y] c4 by blast
  have jn: "z \<in> joined m i j \<longleftrightarrow>
      (g1 \<and> z = ?q1) \<or> (g2 \<and> z = ?q2) \<or> (g3 \<and> z = ?q3) \<or> (g4 \<and> z = ?q4)" for z
    unfolding joined_def g1_def g2_def g3_def g4_def by blast
  have "adjacent a4 x y \<longleftrightarrow>
           (x \<noteq> ?p \<and> adjacent (rows m) x y)
           \<or> (x = ?p \<and> y \<in> joined m i j)
           \<or> (y = ?p \<and> x \<in> joined m i j)"
    unfolding s4 s3 s2 s1 jn by blast
  then show "adjacent (rows m') x y \<longleftrightarrow>
           (x \<noteq> ?p \<and> adjacent (rows m) x y)
           \<or> (x = ?p \<and> y \<in> joined m i j)
           \<or> (y = ?p \<and> x \<in> joined m i j)"
    by (simp add: m')
qed

lemma orthogonal_sym: "orthogonal wd p q \<Longrightarrow> orthogonal wd q p"
  by (auto simp: orthogonal_def)

lemma gridInv_newMaze: "gridInv (newMaze wd ht)"
  by (simp add: gridInv_def newMaze_def adjacent_def deref_def)

lemma gridInv_addCell:
  assumes "gridInv m" and "maze_addCell i j c m = Inr m'" and "adj c = []"
  shows "gridInv m'"
proof -
  let ?p = "i * w m + j"
  from assms(1) have len: "length (rows m) = w m * h m"
    and sym: "\<And>x y. adjacent (rows m) x y \<Longrightarrow> adjacent (rows m) y x"
    and orth: "\<And>x y. adjacent (rows m) x y \<Longrightarrow> orthogonal (w m) x y"
    by (auto simp: gridInv_def)
  note eff = maze_addCell_effect [OF assms(2,3) len]
  have "adjacent (rows m') y x \<and> orthogonal (w m') x y" if xy: "adjacent (rows m') x y" for x y
  proof -
    from xy eff(7) [of x y] consider
        "x \<noteq> ?p" "adjacent (rows m) x y" | "x = ?p" "y \<in> joined m i j"
      | "y = ?p" "x \<in> joined m i j"
      by blast
    then show ?thesis
    proof cases
      case 1
      show ?thesis
      proof (cases "y = ?p")
        case True
        from 1(2) obtain cx where "deref (rows m) x = Some cx"
          by (auto simp: adjacent_def)
        then have "x < w m * h m" "deref (rows m) x \<noteq> None"
          using deref_Some_length [of "rows m" x cx] len by auto
        moreover have "orthogonal (w m) ?p x"
          using orth [OF 1(2)] True by (auto intro: orthogonal_sym)
        ultimately have "x \<in> joined m i j"
          using eff(1,2) by (intro orthogonal_joined) auto
        with True orth [OF 1(2)] show ?thesis
          using eff(7) [of y x] eff(3) by auto
      next
        case False
        with sym [OF 1(2)] orth [OF 1(2)] show ?thesis
          using eff(7) [of y x] eff(3) by auto
      qed
    next
      case 2
      with joined_orthogonal [OF eff(2) 2(2)] show ?thesis
        using eff(7) [of y x] eff(3) by auto
    next
      case 3
      with joined_orthogonal [OF eff(2) 3(2)] show ?thesis
        using eff(7) [of y x] eff(3) by (auto intro: orthogonal_sym)
    qed
  qed
  then show ?thesis
    using eff(3,4,5) len by (simp add: gridInv_def)
qed

lemma gridInv_addRowCells:
  "gridInv m \<Longrightarrow> addRowCells i row js m = Inr m' \<Longrightarrow> gridInv m'"
proof (induction js arbitrary: m)
  case Nil
  then show ?case by simp
next
  case (Cons j js)
  show ?case
  proof (cases "row ! j \<noteq> 35")
    case True
    with Cons.prems(2) obtain m1 where
      m1: "maze_addCell i j (newCell (row ! j)) m = Inr m1" "addRowCells i row js m1 = Inr m'"
      by (auto split: sum.splits)
    have "gridInv m1"
      using Cons.prems(1) m1(1) by (rule gridInv_addCell) (simp add: newCell_def)
    then show ?thesis
      using m1(2) by (rule Cons.IH)
  next
    case False
    with Cons show ?thesis by simp
  qed
qed

lemma gridInv_addRows:
  "gridInv m \<Longrightarrow> addRows i ls m = Inr m' \<Longrightarrow> gridInv m'"
proof (induction ls arbitrary: i m)
  case Nil
  then show ?case by simp
next
  case (Cons row ls)
  from Cons.prems(2) obtain m1 where
    m1: "addRowCells i row (rangeString row) m = Inr m1" "addRows (Suc i) ls m1 = Inr m'"
    by (auto split: sum.splits)
  from Cons.IH [OF gridInv_addRowCells [OF Cons.prems(1) m1(1)] m1(2)] show ?case .
qed

lemma skeleton_deref:
  assumes "skeleton a = skeleton b"
  shows "map_option (\<lambda>c. (char c, adj c, cellType c)) (deref a x)
       = map_option (\<lambda>c. (char c, adj c, cellType c)) (deref b x)"
proof -
  from assms have len: "length a = length b"
    unfolding skeleton_def by (rule map_eq_imp_length_eq)
  show ?thesis
  proof (cases "x < length a")
    case True
    with assms len have "skeleton a ! x = skeleton b ! x"
      by simp
    with True len show ?thesis
      by (simp add: skeleton_def deref_def)
  next
    case False
    with len show ?thesis by (simp add: deref_def)
  qed
qed

lemma skeleton_length: "skeleton a = skeleton b \<Longrightarrow> length a = length b"
  unfolding skeleton_def by (rule map_eq_imp_length_eq)

lemma skeleton_Some:
  assumes "skeleton a = skeleton b" and "deref a x = Some c"
  shows "\<exists>d. deref b x = Some d \<and> char d = char c \<and> adj d = adj c \<and> cellType d = cellType c"
  using skeleton_deref [OF assms(1), of x] assms(2) by (cases "deref b x") auto

lemma skeleton_setPaths:
  "deref a p = Some c \<Longrightarrow> skeleton (a[p := Some (c\<lparr>paths := ps\<rparr>)]) = skeleton a"
  by (auto simp: skeleton_def deref_def map_update list_update_same_conv split: if_splits)

lemma skeleton_buildPathsAt:
  "buildPathsAt ps a = Inr a' \<Longrightarrow> skeleton a' = skeleton a"
proof (induction ps arbitrary: a)
  case Nil
  then show ?case by simp
next
  case (Cons p ps)
  show ?case
  proof (cases "deref a p")
    case None
    with Cons show ?thesis by simp
  next
    case (Some c)
    show ?thesis
    proof (cases "cellType c = key \<or> cellType c = start")
      case True
      with Cons.prems Some obtain pths where
        "buildPathsAt ps (a[p := Some (c\<lparr>paths := pths\<rparr>)]) = Inr a'"
        by (auto split: sum.splits)
      from Cons.IH [OF this] skeleton_setPaths [OF Some] show ?thesis
        by simp
    next
      case False
      with Cons Some show ?thesis by simp
    qed
  qed
qed

lemma skeleton_adjacent: "skeleton a = skeleton b \<Longrightarrow> adjacent a x y \<longleftrightarrow> adjacent b x y"
  using skeleton_Some [of a b x] skeleton_Some [of b a x]
  by (auto simp: adjacent_def)

lemma gridInv_readMaze: "readMaze ls = Inr m \<Longrightarrow> gridInv m"
proof -
  assume "readMaze ls = Inr m"
  then obtain l0 rest m1 where
    ls: "ls = l0 # rest" and
    m1: "addRows 0 ls (newMaze (length l0) (length ls)) = Inr m1" and
    m: "maze_buildPaths m1 = Inr m"
    by (auto simp: readMaze_def split: list.splits sum.splits)
  from gridInv_addRows [OF gridInv_newMaze m1] have g: "gridInv m1" .
  from m obtain a where
    a: "buildPathsAt [0..<length (rows m1)] (rows m1) = Inr a" "m = m1\<lparr>rows := a\<rparr>"
    by (auto simp: maze_buildPaths_def split: sum.splits)
  from skeleton_buildPathsAt [OF a(1)] have s: "skeleton a = skeleton (rows m1)" .
  then have "length a = length (rows m1)"
    by (rule skeleton_length)
  with g skeleton_adjacent [OF s] show ?thesis
    by (simp add: gridInv_def a(2))
qed

lemma scenario1_adjacent:
  "(case readMaze scenario1 of
      Inl e \<Rightarrow> False
    | Inr m \<Rightarrow>
        (case (deref (rows m) 14, deref (rows m) 15) of
           (Some c, Some c1) \<Rightarrow> 15 \<in> set (adj c)
         | _ \<Rightarrow> False))"
  by code_simp

text \<open>
  C9. In the maze that \<open>readMaze\<close> returns, for all cells \<open>c\<close> (at \<open>p\<close>) and \<open>c1\<close> (at \<open>q\<close>):
  \<open>c1\<close> is in the adjacency list of \<open>c\<close> if and only if \<open>c\<close> is in the adjacency list of
  \<open>c1\<close>, and then their grid positions differ by exactly one row or exactly one column.
\<close>

theorem adjacency_symmetric_orthogonal:
  assumes "readMaze ls = Inr m"
    and "deref (rows m) p = Some c" and "deref (rows m) q = Some c1"
  shows "(q \<in> set (adj c) \<longleftrightarrow> p \<in> set (adj c1))
    \<and> (q \<in> set (adj c) \<longrightarrow> orthogonal (w m) p q)"
proof -
  from gridInv_readMaze [OF assms(1)] have
    g: "\<And>x y. adjacent (rows m) x y \<Longrightarrow> adjacent (rows m) y x \<and> orthogonal (w m) x y"
    by (simp add: gridInv_def)
  have "adjacent (rows m) p q \<longleftrightarrow> q \<in> set (adj c)"
    "adjacent (rows m) q p \<longleftrightarrow> p \<in> set (adj c1)"
    using assms(2,3) by (simp_all add: adjacent_def)
  with g [of p q] g [of q p] show ?thesis
    by blast
qed

theorem adjacency_symmetric_orthogonal_witness:
  "\<exists>m c c1. readMaze scenario1 = Inr m
     \<and> deref (rows m) 14 = Some c \<and> deref (rows m) 15 = Some c1
     \<and> 15 \<in> set (adj c) \<and> 14 \<in> set (adj c1) \<and> orthogonal (w m) 14 15"
proof -
  from scenario1_adjacent obtain m c c1 where
    m: "readMaze scenario1 = Inr m" "deref (rows m) 14 = Some c" "deref (rows m) 15 = Some c1"
      "15 \<in> set (adj c)"
    by (auto split: sum.splits option.splits)
  from adjacency_symmetric_orthogonal [OF m(1,2,3)] m show ?thesis
    by blast
qed

section \<open>shortestPath does not write to its argument\<close>

lemma pathsLoop_h_frame:
  assumes "frame rec"
  shows "pathsLoop_h rec a s i ps (mn, st, t) = Inr (mn', st', t') \<Longrightarrow> \<exists>ext. st' = st @ ext"
proof (induction ps arbitrary: mn st t)
  case Nil
  then show ?case by simp
next
  case (Cons p ps)
  from Cons.prems obtain d where d: "deref a (dest p) = Some d"
    by (auto split: option.splits)
  show ?case
  proof (cases "keyset_contains (keys_h s) (char d)
             \<or> \<not> keyset_containsAll (keys_h s) (reqKeys p)")
    case True
    with Cons d show ?thesis by simp
  next
    case False
    with Cons.prems d obtain cs r st3 t3 where
      cs: "sliceAt st (cells_at s) = Some cs" and
      r: "rec \<lparr>cells_at = length st, keys_h = keyset_plus (keys_h s) (char d)\<rparr>
            (setCell (st @ [cs]) \<lparr>cells_at = length st, keys_h = keys_h s\<rparr> i (dest p)) t
          = Inr (r, st3, t3)" and
      l: "pathsLoop_h rec a s i ps (updMin mn (len p + r), st3, t3) = Inr (mn', st', t')"
      by (auto simp: state_copy_h_def Let_def split: option.splits sum.splits)
    from r assms obtain ext where "st3 = setCell (st @ [cs]) \<lparr>cells_at = length st, keys_h = keys_h s\<rparr> i (dest p) @ ext"
      unfolding frame_def by blast
    then have "st3 = st @ ([cs[i := dest p]] @ ext)"
      by (simp add: setCell_def)
    moreover from Cons.IH [OF l] obtain ext' where "st' = st3 @ ext'" ..
    ultimately show ?thesis by simp
  qed
qed

lemma cellsLoop_h_frame:
  assumes "frame rec"
  shows "cellsLoop_h rec a s i k (mn, st, t) = Inr (mn', st', t') \<Longrightarrow> \<exists>ext. st' = st @ ext"
proof (induction k arbitrary: i mn st t)
  case 0
  then show ?case by simp
next
  case (Suc k)
  from Suc.prems obtain cl :: cell and mn1 st1 t1 where
    p: "pathsLoop_h rec a s i (paths cl) (mn, st, t) = Inr (mn1, st1, t1)" and
    c: "cellsLoop_h rec a s (Suc i) k (mn1, st1, t1) = Inr (mn', st', t')"
    by (auto split: option.splits sum.splits)
  from pathsLoop_h_frame [OF assms p] Suc.IH [OF c] show ?case
    by auto
qed

lemma shortestPath_h_frame: "frame (shortestPath_h n m)"
proof (induction n)
  case 0
  show ?case by (simp add: frame_def)
next
  case (Suc n)
  show ?case
    unfolding frame_def
  proof (intro allI impI)
    fix s st t r st' t'
    assume a: "shortestPath_h (Suc n) m s st t = Inr (r, st', t')"
    show "\<exists>ext. st' = st @ ext"
    proof (cases "st' = st")
      case True
      then show ?thesis by simp
    next
      case False
      with a obtain cs :: "ref list" and mn t1 where
        "cellsLoop_h (shortestPath_h n m) (rows m) s 0 (length cs) (0, st, t) = Inr (mn, st', t1)"
        by (auto split: option.splits sum.splits if_splits)
      from cellsLoop_h_frame [OF Suc this] show ?thesis .
    qed
  qed
qed

lemma stateOf_simps [simp]: "state.keys (stateOf s cs) = keys_h s" "cells (stateOf s cs) = cs"
  by (simp_all add: stateOf_def)

lemma value_h_simps [simp]:
  "value_h (Inl e) = Inl e" "value_h (Inr (r, st, t)) = Inr (r, t)"
  by (simp_all add: value_h_def)

lemma pathsLoop_h_refines:
  assumes "refines f g" and "sliceAt st (cells_at s) = Some cs"
  shows "pathsLoop g a (stateOf s cs) i ps (mn, t) = value_h (pathsLoop_h f a s i ps (mn, st, t))"
  using assms(2)
proof (induction ps arbitrary: mn st t)
  case Nil
  show ?case by simp
next
  case (Cons p ps)
  show ?case
  proof (cases "deref a (dest p)")
    case None
    then show ?thesis by simp
  next
    case (Some d)
    show ?thesis
    proof (cases "keyset_contains (keys_h s) (char d)
             \<or> \<not> keyset_containsAll (keys_h s) (reqKeys p)")
      case True
      with Some Cons show ?thesis by simp
    next
      case False
      let ?ns = "\<lparr>cells_at = length st, keys_h = keyset_plus (keys_h s) (char d)\<rparr>"
      let ?st2 = "setCell (st @ [cs]) \<lparr>cells_at = length st, keys_h = keys_h s\<rparr> i (dest p)"
      have sl: "sliceAt ?st2 (cells_at ?ns) = Some (cs[i := dest p])"
        by (simp add: sliceAt_def setCell_def)
      have ns: "stateOf ?ns (cs[i := dest p]) = nextState (stateOf s cs) i (dest p) d"
        by (simp add: stateOf_def nextState_def state_copy_def)
      from assms(1) sl have v: "g (nextState (stateOf s cs) i (dest p) d) t = value_h (f ?ns ?st2 t)"
        unfolding refines_def ns [symmetric] by blast
      have unf: "pathsLoop g a (stateOf s cs) i (p # ps) (mn, t) =
          (case value_h (f ?ns ?st2 t) of
             Inl e \<Rightarrow> Inl e
           | Inr (r, t') \<Rightarrow> pathsLoop g a (stateOf s cs) i ps (updMin mn (len p + r), t'))"
        using Some False v by simp
      show ?thesis
      proof (cases "f ?ns ?st2 t")
        case (Inl e)
        with unf Some False Cons.prems show ?thesis
          by (simp add: state_copy_h_def)
      next
        case (Inr x)
        obtain r st3 t3 where x: "x = (r, st3, t3)" by (cases x)
        from assms(1) Inr x obtain ext where "st3 = ?st2 @ ext"
          unfolding refines_def frame_def by blast
        then have "sliceAt st3 (cells_at s) = Some cs"
          using Cons.prems by (auto simp: sliceAt_def setCell_def nth_append split: if_splits)
        from Cons.IH [OF this, of "updMin mn (len p + r)" t3] unf Some False Cons.prems Inr x
        show ?thesis
          by (simp add: state_copy_h_def)
      qed
    qed
  qed
qed

lemma pathsLoop_h_slice:
  assumes "frame f" and "sliceAt st (cells_at s) = Some cs"
    and "pathsLoop_h f a s i ps (mn, st, t) = Inr (mn', st', t')"
  shows "sliceAt st' (cells_at s) = Some cs"
proof -
  from pathsLoop_h_frame [OF assms(1,3)] obtain ext where "st' = st @ ext" ..
  with assms(2) show ?thesis
    by (auto simp: sliceAt_def nth_append split: if_splits)
qed

lemma cellsLoop_h_refines:
  assumes "refines f g" and "sliceAt st (cells_at s) = Some cs" and "i + k = length cs"
  shows "cellsLoop g a (stateOf s cs) i (drop i cs) (mn, t) = value_h (cellsLoop_h f a s i k (mn, st, t))"
  using assms(2,3)
proof (induction k arbitrary: i mn st t)
  case 0
  then show ?case by simp
next
  case (Suc k)
  then have i: "i < length cs" by simp
  then have dr: "drop i cs = cs ! i # drop (Suc i) cs"
    by (simp add: Cons_nth_drop_Suc)
  show ?case
  proof (cases "deref a (cs ! i)")
    case None
    with Suc.prems i dr show ?thesis
      by (simp add: elemAt_def)
  next
    case (Some cl)
    note pl = pathsLoop_h_refines [OF assms(1) Suc.prems(1), of a i "paths cl" mn t]
    show ?thesis
    proof (cases "pathsLoop_h f a s i (paths cl) (mn, st, t)")
      case (Inl e)
      with pl Some Suc.prems i dr show ?thesis
        by (simp add: elemAt_def)
    next
      case (Inr x)
      obtain mn1 st1 t1 where x: "x = (mn1, st1, t1)" by (cases x)
      from assms(1) have "frame f" by (simp add: refines_def)
      from pathsLoop_h_slice [OF this Suc.prems(1) Inr [unfolded x]]
      have "sliceAt st1 (cells_at s) = Some cs" .
      from Suc.IH [OF this, of "Suc i" mn1 t1] Suc.prems(2) pl Some Suc.prems(1) i dr Inr x
      show ?thesis
        by (simp add: elemAt_def)
    qed
  qed
qed

lemma shortestPath_h_refines: "refines (shortestPath_h n m) (shortestPath n m)"
proof (induction n)
  case 0
  show ?case by (simp add: refines_def frame_def)
next
  case (Suc n)
  have "shortestPath (Suc n) m (stateOf s cs) t = value_h (shortestPath_h (Suc n) m s st t)"
    if sl: "sliceAt st (cells_at s) = Some cs" for s st t cs
  proof -
    note cl = cellsLoop_h_refines [OF Suc sl, of 0 "length cs" "rows m" 0 t]
    show ?thesis
    proof (cases "cellsLoop_h (shortestPath_h n m) (rows m) s 0 (length cs) (0, st, t)")
      case (Inl e)
      with cl sl show ?thesis
        by (simp add: stateOf_def [symmetric] split: sum.splits option.splits)
    next
      case (Inr x)
      obtain mn st1 t1 where "x = (mn, st1, t1)" by (cases x)
      with Inr cl sl show ?thesis
        by (simp add: stateOf_def [symmetric] split: sum.splits option.splits)
    qed
  qed
  with shortestPath_h_frame [of "Suc n" m] show ?case
    unfolding refines_def by blast
qed

lemma scenario1_store:
  "(case readMaze scenario1 of
      Inl e \<Rightarrow> False
    | Inr m \<Rightarrow>
        (case shortestPath_h 3 m \<lparr>cells_at = 0, keys_h = 0\<rparr> [maze_start m] Map.empty of
           Inl e \<Rightarrow> False
         | Inr (r, st', t') \<Rightarrow> r = 8 \<and> st' = [[14], [16], [10]]))"
  by code_simp

text \<open>
  C10. A call \<open>shortestPath(m, s, table)\<close> that returns leaves every backing array that
  existed before the call as it was, the array of \<open>s.cells\<close> among them: the store after
  the call is the store before it followed by the arrays that the copies allocated.
  (\<open>s.keys\<close> is a field of the callee's own copy of the struct: the caller's value cannot
  change.)
\<close>

theorem shortestPath_keeps_state:
  assumes "shortestPath_h n m s st t = Inr (r, st', t')"
  shows "take (length st) st' = st \<and> sliceAt st' (cells_at s) = sliceAt st (cells_at s)"
proof -
  from shortestPath_h_frame [of n m] assms obtain ext where e: "st' = st @ ext"
    unfolding frame_def by blast
  from assms have "cells_at s < length st"
    by (cases n) (auto simp: sliceAt_def split: if_splits)
  with e show ?thesis
    by (simp add: sliceAt_def nth_append)
qed

theorem shortestPath_keeps_state_witness:
  "\<exists>m r st' t'. readMaze scenario1 = Inr m
     \<and> shortestPath_h 3 m \<lparr>cells_at = 0, keys_h = 0\<rparr> [maze_start m] Map.empty = Inr (r, st', t')
     \<and> st' = [[14], [16], [10]] \<and> sliceAt st' 0 = Some (maze_start m)"
proof -
  from scenario1_store obtain m r st' t' where
    m: "readMaze scenario1 = Inr m"
      "shortestPath_h 3 m \<lparr>cells_at = 0, keys_h = 0\<rparr> [maze_start m] Map.empty = Inr (r, st', t')"
      "st' = [[14], [16], [10]]"
    by (auto split: sum.splits)
  from shortestPath_keeps_state [OF m(2)] m show ?thesis
    by (auto simp: sliceAt_def)
qed

section \<open>The memo table\<close>

lemma pathsLoopNoMemo_mono:
  "belowNoMemo f g \<Longrightarrow> pathsLoopNoMemo f a s i ps mn = Inr r \<Longrightarrow> pathsLoopNoMemo g a s i ps mn = Inr r"
proof (induction ps arbitrary: mn)
  case Nil
  then show ?case by simp
next
  case (Cons p ps)
  show ?case
    using Cons.prems Cons.IH [OF Cons.prems(1)]
    by (auto simp: belowNoMemo_def split: option.splits sum.splits if_splits)
qed

lemma cellsLoopNoMemo_mono:
  "belowNoMemo f g \<Longrightarrow> cellsLoopNoMemo f a s i cs mn = Inr r \<Longrightarrow> cellsLoopNoMemo g a s i cs mn = Inr r"
proof (induction cs arbitrary: mn i)
  case Nil
  then show ?case by simp
next
  case (Cons c cs)
  show ?case
    using Cons.prems Cons.IH [OF Cons.prems(1)] pathsLoopNoMemo_mono [OF Cons.prems(1)]
    by (auto split: option.splits sum.splits)
qed

lemma shortestPathNoMemo_Suc:
  "shortestPathNoMemo n m s = Inr r \<Longrightarrow> shortestPathNoMemo (Suc n) m s = Inr r"
proof (induction n arbitrary: s r)
  case 0
  then show ?case by simp
next
  case (Suc n)
  have b: "belowNoMemo (shortestPathNoMemo n m) (shortestPathNoMemo (Suc n) m)"
    unfolding belowNoMemo_def using Suc.IH by blast
  show ?case
    using Suc.prems cellsLoopNoMemo_mono [OF b]
    by (subst shortestPathNoMemo.simps) (auto split: if_splits)
qed

lemma shortestPathNoMemo_fuel:
  "shortestPathNoMemo n m s = Inr r \<Longrightarrow> shortestPathNoMemo (n + k) m s = Inr r"
  by (induction k) (auto dest: shortestPathNoMemo_Suc)

lemma shortestPathNoMemo_le:
  "shortestPathNoMemo n m s = Inr r \<Longrightarrow> n \<le> n' \<Longrightarrow> shortestPathNoMemo n' m s = Inr r"
  using shortestPathNoMemo_fuel [of n m s r "n' - n"] by simp

lemma belowNoMemo_le: "n \<le> n' \<Longrightarrow> belowNoMemo (shortestPathNoMemo n m) (shortestPathNoMemo n' m)"
  unfolding belowNoMemo_def by (blast intro: shortestPathNoMemo_le)

lemma decimal_nonempty: "decimal n \<noteq> []"
  by (subst decimal.simps) simp

lemma decimal_length: "(length (decimal n) = 1) = (n < 10)"
  using decimal_nonempty [of "n div 10"]
  by (subst decimal.simps) (auto simp: Suc_le_eq less_Suc_eq_0_disj)

lemma digit_inj: "a < 10 \<Longrightarrow> b < 10 \<Longrightarrow> (48 + of_nat a :: byte) = 48 + of_nat b \<Longrightarrow> a = b"
proof -
  assume a: "a < 10" "b < 10" and "(48 + of_nat a :: byte) = 48 + of_nat b"
  then have "(of_nat a :: byte) = of_nat b" by simp
  then have "unat (of_nat a :: byte) = unat (of_nat b :: byte)" by simp
  with a show ?thesis by (simp add: unat_of_nat)
qed

lemma decimal_inj: "decimal n = decimal k \<Longrightarrow> n = k"
proof (induction n arbitrary: k rule: decimal.induct)
  case (1 n)
  show ?case
  proof (cases "n < 10")
    case True
    with "1.prems" have k: "k < 10"
      using decimal_length [of n] decimal_length [of k] by simp
    from "1.prems" True k have "(48 + of_nat n :: byte) = 48 + of_nat k"
      by (subst (asm) decimal.simps, subst (asm) (2) decimal.simps) simp
    with True k show ?thesis by (rule digit_inj)
  next
    case False
    with "1.prems" have k: "\<not> k < 10"
      using decimal_length [of n] decimal_length [of k] by simp
    from "1.prems" False k have
      "decimal (n div 10) @ [48 + of_nat (n mod 10)] = decimal (k div 10) @ [48 + of_nat (k mod 10)]"
      by (subst (asm) decimal.simps, subst (asm) (2) decimal.simps) simp
    then have d: "decimal (n div 10) = decimal (k div 10)"
      and m: "(48 + of_nat (n mod 10) :: byte) = 48 + of_nat (k mod 10)"
      by simp_all
    from "1.IH" [OF False d] have "n div 10 = k div 10" .
    moreover from m have "n mod 10 = k mod 10"
      by (intro digit_inj) simp_all
    ultimately show ?thesis
      by (metis div_mult_mod_eq)
  qed
qed

lemma cellChars_length: "cellChars a cs = Inr bs \<Longrightarrow> length bs = length cs"
  by (induction cs arbitrary: bs) (auto split: option.splits sum.splits)

lemma cellChars_nth:
  "cellChars a cs = Inr bs \<Longrightarrow> i < length cs \<Longrightarrow> charAt a (cs ! i) = Some (bs ! i)"
proof (induction cs arbitrary: bs i)
  case Nil
  then show ?case by simp
next
  case (Cons c cs)
  then show ?case
    by (cases i) (auto simp: charAt_def split: option.splits sum.splits)
qed

lemma state_String_inj:
  assumes "state_String a s1 = Inr k" and "state_String a s2 = Inr k"
    and "length (cells s1) = length (cells s2)"
  shows "state.keys s1 = state.keys s2
    \<and> (\<forall>i < length (cells s1). charAt a (cells s1 ! i) = charAt a (cells s2 ! i))"
proof -
  from assms(1) obtain bs1 where
    b1: "cellChars a (cells s1) = Inr bs1" "k = bs1 @ decimal (unat (state.keys s1))"
    by (auto simp: state_String_def split: sum.splits)
  from assms(2) obtain bs2 where
    b2: "cellChars a (cells s2) = Inr bs2" "k = bs2 @ decimal (unat (state.keys s2))"
    by (auto simp: state_String_def split: sum.splits)
  have "length bs1 = length bs2"
    using cellChars_length [OF b1(1)] cellChars_length [OF b2(1)] assms(3) by simp
  with b1(2) b2(2) have eq: "bs1 = bs2" "decimal (unat (state.keys s1)) = decimal (unat (state.keys s2))"
    by simp_all
  from decimal_inj [OF eq(2)] have "state.keys s1 = state.keys s2"
    by (simp add: word_unat_eq_iff)
  moreover have "charAt a (cells s1 ! i) = charAt a (cells s2 ! i)" if "i < length (cells s1)" for i
    using cellChars_nth [OF b1(1) that] cellChars_nth [OF b2(1), of i] that assms(3) eq(1)
    by simp
  ultimately show ?thesis by blast
qed

lemma stays_inj:
  assumes "distinctLandmarks a s0" and "stays a s0 s1" and "stays a s0 s2"
    and "state_String a s1 = Inr k" and "state_String a s2 = Inr k"
  shows "s1 = s2"
proof -
  from assms(2,3) have len: "length (cells s1) = length (cells s2)" "length (cells s1) = length (cells s0)"
    by (simp_all add: stays_def)
  from state_String_inj [OF assms(4,5) len(1)] have
    k: "state.keys s1 = state.keys s2" and
    ch: "\<And>i. i < length (cells s1) \<Longrightarrow> charAt a (cells s1 ! i) = charAt a (cells s2 ! i)"
    by blast+
  have "cells s1 ! i = cells s2 ! i" if i: "i < length (cells s1)" for i
  proof -
    let ?c0 = "cells s0 ! i"
    from assms(1) i len(2) have "distinct (map (charAt a) (remdups (?c0 # allDests a)))"
      by (simp add: distinctLandmarks_def list_all_length)
    then have "inj_on (charAt a) (set (remdups (?c0 # allDests a)))"
      unfolding distinct_map by blast
    then have inj: "inj_on (charAt a) (set (?c0 # allDests a))"
      by (simp only: set_remdups)
    have m1: "cells s1 ! i \<in> set (?c0 # allDests a)"
      using assms(2) i by (auto simp: stays_def)
    have m2: "cells s2 ! i \<in> set (?c0 # allDests a)"
      using assms(3) i len by (auto simp: stays_def)
    from inj ch [OF i] m1 m2 show ?thesis
      by (rule inj_onD)
  qed
  with len(1) have "cells s1 = cells s2"
    by (simp add: list_eq_iff_nth_eq)
  with k show ?thesis by simp
qed

lemma stays_refl: "stays a s s"
  by (simp add: stays_def)

lemma stays_nextState:
  assumes "stays a s0 s" and "dst \<in> set (allDests a)"
  shows "stays a s0 (nextState s i dst d)"
proof -
  have c: "cells (nextState s i dst d) = (cells s)[i := dst]"
    by (simp add: nextState_def state_copy_def)
  have "(cells s)[i := dst] ! j = cells s0 ! j \<or> (cells s)[i := dst] ! j \<in> set (allDests a)"
    if "j < length (cells s)" for j
    using assms that by (cases "j = i") (auto simp: stays_def)
  with assms(1) show ?thesis
    unfolding stays_def c by simp
qed

lemma dest_in_allDests:
  assumes "deref a c = Some cl" and "p \<in> set (paths cl)"
  shows "dest p \<in> set (allDests a)"
proof -
  from assms(1) have "Some cl \<in> set a"
    by (auto simp: deref_def in_set_conv_nth split: if_splits)
  with assms(2) show ?thesis
    unfolding allDests_def by (auto intro!: bexI [of _ "Some cl"])
qed

lemma pathsLoop_agrees:
  assumes "agrees m s0 f" and "stays (rows m) s0 s"
  shows "sound m s0 t \<Longrightarrow> dest ` set ps \<subseteq> set (allDests (rows m)) \<Longrightarrow>
     pathsLoop f (rows m) s i ps (mn, t) = Inr (mn', t') \<Longrightarrow>
     (\<exists>n. pathsLoopNoMemo (shortestPathNoMemo n m) (rows m) s i ps mn = Inr mn') \<and> sound m s0 t'"
proof (induction ps arbitrary: mn t)
  case Nil
  then show ?case by simp
next
  case (Cons p ps)
  from Cons.prems(3) obtain d where d: "deref (rows m) (dest p) = Some d"
    by (auto split: option.splits)
  from Cons.prems(2) have sub: "dest ` set ps \<subseteq> set (allDests (rows m))"
    and dp: "dest p \<in> set (allDests (rows m))"
    by auto
  show ?case
  proof (cases "keyset_contains (state.keys s) (char d)
             \<or> \<not> keyset_containsAll (state.keys s) (reqKeys p)")
    case True
    with Cons.prems(3) d have "pathsLoop f (rows m) s i ps (mn, t) = Inr (mn', t')"
      by simp
    from Cons.IH [OF Cons.prems(1) sub this] True d show ?thesis
      by simp
  next
    case False
    with Cons.prems(3) d obtain r t1 where
      r: "f (nextState s i (dest p) d) t = Inr (r, t1)" and
      l: "pathsLoop f (rows m) s i ps (updMin mn (len p + r), t1) = Inr (mn', t')"
      by (auto split: sum.splits)
    from assms(1) stays_nextState [OF assms(2) dp] Cons.prems(1) r obtain n1 where
      n1: "shortestPathNoMemo n1 m (nextState s i (dest p) d) = Inr r" and s1: "sound m s0 t1"
      unfolding agrees_def by blast
    from Cons.IH [OF s1 sub l] obtain n2 where
      n2: "pathsLoopNoMemo (shortestPathNoMemo n2 m) (rows m) s i ps (updMin mn (len p + r)) = Inr mn'"
      and s2: "sound m s0 t'"
      by blast
    let ?n = "max n1 n2"
    have "shortestPathNoMemo ?n m (nextState s i (dest p) d) = Inr r"
      using n1 by (rule shortestPathNoMemo_le) simp
    moreover have "belowNoMemo (shortestPathNoMemo n2 m) (shortestPathNoMemo ?n m)"
      by (rule belowNoMemo_le) simp
    from this n2
    have "pathsLoopNoMemo (shortestPathNoMemo ?n m) (rows m) s i ps (updMin mn (len p + r)) = Inr mn'"
      by (rule pathsLoopNoMemo_mono)
    ultimately have "pathsLoopNoMemo (shortestPathNoMemo ?n m) (rows m) s i (p # ps) mn = Inr mn'"
      using d False by simp
    with s2 show ?thesis by blast
  qed
qed

lemma cellsLoop_agrees:
  assumes "agrees m s0 f" and "stays (rows m) s0 s"
  shows "sound m s0 t \<Longrightarrow> cellsLoop f (rows m) s i cs (mn, t) = Inr (mn', t') \<Longrightarrow>
     (\<exists>n. cellsLoopNoMemo (shortestPathNoMemo n m) (rows m) s i cs mn = Inr mn') \<and> sound m s0 t'"
proof (induction cs arbitrary: i mn t)
  case Nil
  then show ?case by simp
next
  case (Cons c cs)
  from Cons.prems(2) obtain cl :: cell and mn1 t1 where
    cl: "deref (rows m) c = Some cl" and
    p: "pathsLoop f (rows m) s i (paths cl) (mn, t) = Inr (mn1, t1)" and
    l: "cellsLoop f (rows m) s (Suc i) cs (mn1, t1) = Inr (mn', t')"
    by (auto split: option.splits sum.splits)
  have "dest ` set (paths cl) \<subseteq> set (allDests (rows m))"
    using dest_in_allDests [OF cl] by blast
  from pathsLoop_agrees [OF assms Cons.prems(1) this p] obtain n1 where
    n1: "pathsLoopNoMemo (shortestPathNoMemo n1 m) (rows m) s i (paths cl) mn = Inr mn1"
    and s1: "sound m s0 t1"
    by blast
  from Cons.IH [OF s1 l] obtain n2 where
    n2: "cellsLoopNoMemo (shortestPathNoMemo n2 m) (rows m) s (Suc i) cs mn1 = Inr mn'"
    and s2: "sound m s0 t'"
    by blast
  let ?n = "max n1 n2"
  have "belowNoMemo (shortestPathNoMemo n1 m) (shortestPathNoMemo ?n m)"
    by (rule belowNoMemo_le) simp
  from this n1
  have a: "pathsLoopNoMemo (shortestPathNoMemo ?n m) (rows m) s i (paths cl) mn = Inr mn1"
    by (rule pathsLoopNoMemo_mono)
  have "belowNoMemo (shortestPathNoMemo n2 m) (shortestPathNoMemo ?n m)"
    by (rule belowNoMemo_le) simp
  from this n2
  have "cellsLoopNoMemo (shortestPathNoMemo ?n m) (rows m) s (Suc i) cs mn1 = Inr mn'"
    by (rule cellsLoopNoMemo_mono)
  with a cl have "cellsLoopNoMemo (shortestPathNoMemo ?n m) (rows m) s i (c # cs) mn = Inr mn'"
    by simp
  with s2 show ?case by blast
qed

lemma shortestPath_agrees:
  assumes "distinctLandmarks (rows m) s0"
  shows "agrees m s0 (shortestPath n m)"
proof (induction n)
  case 0
  show ?case by (simp add: agrees_def)
next
  case (Suc n)
  show ?case
    unfolding agrees_def
  proof (intro allI impI, elim conjE)
    fix s t v t'
    assume st: "stays (rows m) s0 s" and so: "sound m s0 t"
      and r: "shortestPath (Suc n) m s t = Inr (v, t')"
    from r obtain k where k: "state_String (rows m) s = Inr k"
      by (auto split: sum.splits)
    show "(\<exists>n. shortestPathNoMemo n m s = Inr v) \<and> sound m s0 t'"
    proof (cases "state.keys s = maze.keys m")
      case True
      with r k have "v = 0" "t' = t" by auto
      moreover from True have "shortestPathNoMemo 1 m s = Inr 0" by simp
      ultimately show ?thesis using so by blast
    next
      case False
      show ?thesis
      proof (cases "t k")
        case (Some d)
        with r k False have "v = d" "t' = t" by auto
        with so st k Some show ?thesis
          unfolding sound_def by blast
      next
        case None
        with r k False obtain t1 where
          l: "cellsLoop (shortestPath n m) (rows m) s 0 (cells s) (0, t) = Inr (v, t1)"
          and t': "t' = t1(k \<mapsto> v)"
          by (auto split: sum.splits)
        from cellsLoop_agrees [OF Suc st so l] obtain n1 where
          n1: "cellsLoopNoMemo (shortestPathNoMemo n1 m) (rows m) s 0 (cells s) 0 = Inr v"
          and s1: "sound m s0 t1"
          by blast
        from n1 False have v: "shortestPathNoMemo (Suc n1) m s = Inr v"
          by simp
        have "sound m s0 t'"
          unfolding sound_def
        proof (intro allI impI, elim conjE)
          fix s' k' v'
          assume a: "stays (rows m) s0 s'" "state_String (rows m) s' = Inr k'" "t' k' = Some v'"
          show "\<exists>n. shortestPathNoMemo n m s' = Inr v'"
          proof (cases "k' = k")
            case True
            with a(2) k have "s' = s"
              using stays_inj [OF assms a(1) st] by simp
            moreover from True a(3) t' have "v' = v" by simp
            ultimately show ?thesis using v by blast
          next
            case False
            with a(3) t' have "t1 k' = Some v'" by simp
            with s1 a(1,2) show ?thesis
              unfolding sound_def by blast
          qed
        qed
        with v show ?thesis by blast
      qed
    qed
  qed
qed

lemma scenario1_distinct:
  "(case readMaze scenario1 of
      Inl e \<Rightarrow> False
    | Inr m \<Rightarrow> distinctLandmarks (rows m) (initial m)
        \<and> state_String (rows m) (initial m) = Inr [64, 48])"
  by code_simp

lemma dupKey_check:
  "(case readMaze dupKey of
      Inl e \<Rightarrow> False
    | Inr m \<Rightarrow>
        (case shortestPath 3 m (initial m) Map.empty of
           Inl e \<Rightarrow> False
         | Inr (r, t) \<Rightarrow> r = 9 \<and> t [64, 48] = Some 9
             \<and> state_String (rows m) (initial m) = Inr [64, 48]
             \<and> shortestPathNoMemo 3 m (initial m) = Inr 7))"
  by code_simp

text \<open>
  C3 (as stated, refuted). In the maze \<open>#a@.a....b#\<close> two cells carry the key \<open>a\<close>, and the
  states "at the left \<open>a\<close>, holding \<open>a\<close>" and "at the right \<open>a\<close>, holding \<open>a\<close>" have the same
  key \<open>a1\<close>. From the start, with an empty table, \<open>shortestPath\<close> returns 9 and stores 9
  under the key \<open>@0\<close> of the initial state; the definition without the table returns 7.
\<close>

theorem memo_counterexample:
  "\<exists>m t. readMaze dupKey = Inr m
     \<and> shortestPath 3 m (initial m) Map.empty = Inr (9, t)
     \<and> state_String (rows m) (initial m) = Inr [64, 48] \<and> t [64, 48] = Some 9
     \<and> shortestPathNoMemo 3 m (initial m) = Inr 7"
  using dupKey_check by (auto split: sum.splits)

text \<open>
  C3 (amended). In a maze where, for each agent of the state \<open>s\<close>, the agent's cell and
  the destinations of the paths carry pairwise distinct characters: if \<open>shortestPath\<close> on
  \<open>s\<close> with an empty table returns \<open>v\<close>, then the definition without the table returns \<open>v\<close>
  on \<open>s\<close>; \<open>v\<close> is what the table then holds under the key of \<open>s\<close> (unless \<open>s\<close> holds all
  the keys, when nothing is stored); and whatever the table holds under the key of a
  state \<open>s'\<close> that the search from \<open>s\<close> can come to is what the definition without the
  table returns on \<open>s'\<close>.
\<close>

theorem memo_agrees_with_no_memo:
  assumes "distinctLandmarks (rows m) s"
    and "shortestPath n m s Map.empty = Inr (v, t)"
  shows "(\<exists>k. shortestPathNoMemo k m s = Inr v)
    \<and> (state.keys s \<noteq> maze.keys m
         \<longrightarrow> (\<exists>key. state_String (rows m) s = Inr key \<and> t key = Some v))
    \<and> (\<forall>s' key v'. stays (rows m) s s' \<and> state_String (rows m) s' = Inr key \<and> t key = Some v'
          \<longrightarrow> (\<exists>k. shortestPathNoMemo k m s' = Inr v'))"
proof -
  have "sound m s Map.empty"
    by (simp add: sound_def)
  with shortestPath_agrees [OF assms(1), of n] stays_refl [of "rows m" s] assms(2)
  have "(\<exists>k. shortestPathNoMemo k m s = Inr v) \<and> sound m s t"
    unfolding agrees_def by blast
  moreover have "\<exists>key. state_String (rows m) s = Inr key \<and> t key = Some v"
    if "state.keys s \<noteq> maze.keys m"
    using assms(2) that by (cases n) (auto split: sum.splits)
  ultimately show ?thesis
    unfolding sound_def by blast
qed

theorem memo_agrees_with_no_memo_witness:
  "\<exists>m t. readMaze scenario1 = Inr m
     \<and> distinctLandmarks (rows m) (initial m)
     \<and> shortestPath 3 m (initial m) Map.empty = Inr (8, t)
     \<and> (\<exists>k. shortestPathNoMemo k m (initial m) = Inr 8)"
proof -
  from scenario1_distinct obtain m where
    m: "readMaze scenario1 = Inr m" "distinctLandmarks (rows m) (initial m)"
    by (auto split: sum.splits)
  from scenario1_3 m(1) obtain t where
    t: "shortestPath 3 m (initial m) Map.empty = Inr (8, t)"
    unfolding solveMaze_Inr by auto
  from memo_agrees_with_no_memo [OF m(2) t] m t show ?thesis
    by blast
qed

section \<open>findPaths finds the shortest paths to the keys\<close>

lemma frontier:
  "hops a src n x \<Longrightarrow> src \<in> seen \<Longrightarrow> x \<notin> seen \<Longrightarrow>
     \<exists>j v y. j < n \<and> hops a src j v \<and> v \<in> seen \<and> adjacent a v y \<and> y \<notin> seen"
proof (induction rule: hops.induct)
  case hops_0
  then show ?case by simp
next
  case (hops_Suc n v x)
  show ?case
  proof (cases "v \<in> seen")
    case True
    with hops_Suc.hyps hops_Suc.prems(2) show ?thesis
      by blast
  next
    case False
    from hops_Suc.IH [OF hops_Suc.prems(1) False] show ?thesis
      using less_Suc_eq by blast
  qed
qed

lemma unseen_far:
  assumes inv: "bfsInv a src seen q ps" and q: "q = cur # rest"
    and h: "hops a src n x" and x: "x \<notin> seen"
  shows "Suc (nat (len cur)) \<le> n"
proof -
  from inv have src: "src \<in> seen"
    and ex: "\<And>p. p \<in> set q \<Longrightarrow> exact a src p"
    and srt: "sorted (map len q)"
    and cl: "\<And>v y. v \<in> seen \<Longrightarrow> v \<notin> dest ` set q \<Longrightarrow> adjacent a v y \<Longrightarrow> y \<in> seen"
    unfolding bfsInv_def by blast+
  from frontier [OF h src x] obtain j v y where
    j: "j < n" "hops a src j v" "v \<in> seen" "adjacent a v y" "y \<notin> seen"
    by blast
  from cl [OF j(3) _ j(4)] j(5) obtain p where p: "p \<in> set q" "dest p = v"
    by auto
  from ex [OF p(1)] j(2) p(2) have "nat (len p) \<le> j"
    by (auto simp: exact_def)
  moreover from srt p(1) q have "len cur \<le> len p"
    by auto
  ultimately show ?thesis
    using j(1) by linarith
qed

lemma sorted_le_last:
  "sorted (map len q) \<Longrightarrow> p \<in> set q \<Longrightarrow> len p \<le> len (last q)"
  by (induction q) (auto split: if_splits)

lemma bfsInv_enqueue:
  assumes inv: "bfsInv a src seen q ps" and q: "q = cur # rest"
    and c: "deref a (dest cur) = Some c" and xc: "x \<in> set (adj c)" and x: "x \<notin> seen"
  shows "bfsInv a src (insert x seen) (q @ [extendPath cur x cx]) ps"
proof -
  let ?new = "extendPath cur x cx"
  from inv have src: "src \<in> seen"
    and dq: "dest ` set q \<subseteq> seen" and dps: "dest ` set ps \<subseteq> seen"
    and ex: "\<forall>p \<in> set q \<union> set ps. exact a src p"
    and srt: "sorted (map len q)" and lst: "len (last q) \<le> len (hd q) + 1"
    and cl: "\<forall>v \<in> seen. v \<notin> dest ` set q \<longrightarrow> (\<forall>y. adjacent a v y \<longrightarrow> y \<in> seen)"
    and dis: "distinct (map dest (ps @ q))"
    and ky: "\<forall>p \<in> set ps. isKey a (dest p)"
    and kd: "\<forall>v \<in> seen. v \<notin> dest ` set q \<longrightarrow> isKey a v \<longrightarrow> v \<in> dest ` set ps"
    unfolding bfsInv_def using q by simp_all
  have dn: "dest ?new = x" and ln: "len ?new = len cur + 1"
    by (simp_all add: dest_extendPath len_extendPath)
  from ex q have exc: "exact a src cur" by simp
  have adj: "adjacent a (dest cur) x"
    using c xc by (auto simp: adjacent_def)
  have exn: "exact a src ?new"
    unfolding exact_def dn ln
  proof (intro conjI allI impI)
    from exc show "0 \<le> len cur + 1"
      by (simp add: exact_def)
    from exc have "hops a src (Suc (nat (len cur))) x"
      using adj by (auto simp: exact_def intro: hops_Suc)
    moreover from exc have "nat (len cur + 1) = Suc (nat (len cur))"
      by (simp add: exact_def nat_add_distrib)
    ultimately show "hops a src (nat (len cur + 1)) x"
      by simp
  next
    fix n
    assume "hops a src n x"
    from unseen_far [OF inv q this x] exc show "nat (len cur + 1) \<le> n"
      by (simp add: exact_def nat_add_distrib)
  qed
  have le: "len p \<le> len cur + 1" if "p \<in> set q" for p
    using sorted_le_last [OF srt that] lst q by simp
  have "bfsInv a src (insert x seen) (q @ [?new]) ps"
    unfolding bfsInv_def
  proof (intro conjI)
    show "src \<in> insert x seen" using src by simp
    show "dest ` set (q @ [?new]) \<subseteq> insert x seen" using dq dn by auto
    show "dest ` set ps \<subseteq> insert x seen" using dps by auto
    show "\<forall>p \<in> set (q @ [?new]) \<union> set ps. exact a src p" using ex exn by auto
    show "sorted (map len (q @ [?new]))"
      using srt le by (auto simp: sorted_append ln)
    show "q @ [?new] \<noteq> [] \<longrightarrow> len (last (q @ [?new])) \<le> len (hd (q @ [?new])) + 1"
      using q by (simp add: ln)
    show "\<forall>v \<in> insert x seen. v \<notin> dest ` set (q @ [?new])
        \<longrightarrow> (\<forall>y. adjacent a v y \<longrightarrow> y \<in> insert x seen)"
      using cl dn by auto
    show "distinct (map dest (ps @ q @ [?new]))"
      using dis dq dps x dn by auto
    show "\<forall>p \<in> set ps. isKey a (dest p)" using ky .
    show "\<forall>v \<in> insert x seen. v \<notin> dest ` set (q @ [?new]) \<longrightarrow> isKey a v \<longrightarrow> v \<in> dest ` set ps"
      using kd dn by auto
  qed
  then show ?thesis .
qed

lemma visitAdj_inv:
  assumes c: "deref a (dest cur) = Some c"
  shows "bfsInv a src seen q ps \<Longrightarrow> hd q = cur \<Longrightarrow> q \<noteq> [] \<Longrightarrow> set xs \<subseteq> set (adj c) \<Longrightarrow>
     visitAdj a cur xs (seen, q) = Inr (seen', q') \<Longrightarrow>
     bfsInv a src seen' q' ps \<and> hd q' = cur \<and> q' \<noteq> [] \<and> set xs \<subseteq> seen' \<and> seen \<subseteq> seen'"
proof (induction xs arbitrary: seen q)
  case Nil
  then show ?case by simp
next
  case (Cons x xs)
  from Cons.prems(4) have xs: "set xs \<subseteq> set (adj c)" and xc: "x \<in> set (adj c)"
    by simp_all
  show ?case
  proof (cases "x \<in> seen")
    case True
    with Cons.prems(5) have "visitAdj a cur xs (seen, q) = Inr (seen', q')"
      by simp
    from Cons.IH [OF Cons.prems(1,2,3) xs this] True show ?thesis
      by auto
  next
    case False
    with Cons.prems(5) obtain cx where
      r: "visitAdj a cur xs (insert x seen, q @ [extendPath cur x cx]) = Inr (seen', q')"
      by (auto split: option.splits)
    from Cons.prems(2,3) obtain rest where q: "q = cur # rest"
      by (cases q) auto
    from bfsInv_enqueue [OF Cons.prems(1) q c xc False]
    have i: "bfsInv a src (insert x seen) (q @ [extendPath cur x cx]) ps" .
    from Cons.IH [OF i _ _ xs r] q show ?thesis
      by auto
  qed
qed

lemma bfsInv_dequeue:
  assumes inv: "bfsInv a src seen (cur # rest) ps"
    and c: "deref a (dest cur) = Some c" and ad: "set (adj c) \<subseteq> seen"
  shows "bfsInv a src seen rest (if cellType c = key then ps @ [cur] else ps)"
proof -
  let ?q = "cur # rest"
  let ?ps = "if cellType c = key then ps @ [cur] else ps"
  from inv have src: "src \<in> seen"
    and dq: "dest ` set ?q \<subseteq> seen" and dps: "dest ` set ps \<subseteq> seen"
    and ex: "\<forall>p \<in> set ?q \<union> set ps. exact a src p"
    and srt: "sorted (map len ?q)" and lst: "len (last ?q) \<le> len cur + 1"
    and cl: "\<forall>v \<in> seen. v \<notin> dest ` set ?q \<longrightarrow> (\<forall>y. adjacent a v y \<longrightarrow> y \<in> seen)"
    and dis: "distinct (map dest (ps @ ?q))"
    and ky: "\<forall>p \<in> set ps. isKey a (dest p)"
    and kd: "\<forall>v \<in> seen. v \<notin> dest ` set ?q \<longrightarrow> isKey a v \<longrightarrow> v \<in> dest ` set ps"
    unfolding bfsInv_def by simp_all
  have kc: "isKey a (dest cur) \<longleftrightarrow> cellType c = key"
    using c by (simp add: isKey_def)
  have adj: "y \<in> seen" if "adjacent a (dest cur) y" for y
    using that c ad by (auto simp: adjacent_def)
  show ?thesis
    unfolding bfsInv_def
  proof (intro conjI)
    show "src \<in> seen" using src .
    show "dest ` set rest \<subseteq> seen" using dq by auto
    show "dest ` set ?ps \<subseteq> seen" using dps dq by auto
    show "\<forall>p \<in> set rest \<union> set ?ps. exact a src p" using ex by auto
    show "sorted (map len rest)" using srt by simp
    show "rest \<noteq> [] \<longrightarrow> len (last rest) \<le> len (hd rest) + 1"
    proof
      assume r: "rest \<noteq> []"
      then have "len cur \<le> len (hd rest)"
        using srt by (cases rest) auto
      with lst r show "len (last rest) \<le> len (hd rest) + 1"
        by simp
    qed
    show "\<forall>v \<in> seen. v \<notin> dest ` set rest \<longrightarrow> (\<forall>y. adjacent a v y \<longrightarrow> y \<in> seen)"
      using cl adj by auto
    show "distinct (map dest (?ps @ rest))"
      using dis by auto
    show "\<forall>p \<in> set ?ps. isKey a (dest p)"
      using ky kc by auto
    show "\<forall>v \<in> seen. v \<notin> dest ` set rest \<longrightarrow> isKey a v \<longrightarrow> v \<in> dest ` set ?ps"
      using kd kc by auto
  qed
qed

lemma bfs_inv:
  "bfsInv a src seen q ps \<Longrightarrow> bfs a seen q ps = Inr res \<Longrightarrow> \<exists>seen'. bfsInv a src seen' [] res"
proof (induction a seen q ps arbitrary: res rule: bfs.induct)
  case (1 a seen ps)
  then show ?case by auto
next
  case (2 a seen current rest ps)
  from "2.prems"(2) obtain c seen' q' where
    c: "deref a (dest current) = Some c" and
    v: "visitAdj a current (adj c) (seen, current # rest) = Inr (seen', q')" and
    r: "bfs a seen' (tl q') (if cellType c = key then ps @ [current] else ps) = Inr res"
    by (auto split: option.splits sum.splits)
  from visitAdj_inv [OF c "2.prems"(1) _ _ _ v] have
    i: "bfsInv a src seen' q' ps" and h: "hd q' = current" "q' \<noteq> []" and ad: "set (adj c) \<subseteq> seen'"
    by auto
  from h obtain rest' where q': "q' = current # rest'"
    by (cases q') auto
  from i have "bfsInv a src seen' (current # rest') ps"
    by (simp only: q')
  from bfsInv_dequeue [OF this c ad]
  have "bfsInv a src seen' (tl q') (if cellType c = key then ps @ [current] else ps)"
    by (simp add: q')
  from "2.IH" [OF c v refl this r] show ?case .
qed

lemma bfsInv_initial: "bfsInv a src {src} [\<lparr>len = 0, dest = src, reqKeys = 0\<rparr>] []"
  by (auto simp: bfsInv_def exact_def intro: hops_0)

lemma closed_reachable:
  assumes "hops a src n v" and "src \<in> seen"
    and "\<forall>v \<in> seen. \<forall>x. adjacent a v x \<longrightarrow> x \<in> seen"
  shows "v \<in> seen"
  using assms by (induction rule: hops.induct) auto

lemma exact_distance:
  assumes "exact a src p"
  shows "len p = int (distance a src (dest p))" and "reachable a src (dest p)"
proof -
  from assms have h: "hops a src (nat (len p)) (dest p)"
    and m: "\<And>n. hops a src n (dest p) \<Longrightarrow> nat (len p) \<le> n" and z: "0 \<le> len p"
    by (auto simp: exact_def)
  from h m have "distance a src (dest p) = nat (len p)"
    unfolding distance_def by (rule Least_equality)
  with z show "len p = int (distance a src (dest p))"
    by simp
  from h show "reachable a src (dest p)"
    unfolding reachable_def by blast
qed

lemma findPaths_correct:
  assumes "findPaths a src = Inr res"
  shows "\<forall>p \<in> set res. isKey a (dest p) \<and> reachable a src (dest p)
           \<and> len p = int (distance a src (dest p))"
    and "\<forall>v. reachable a src v \<and> isKey a v \<longrightarrow> v \<in> dest ` set res"
    and "distinct (map dest res)"
proof -
  from bfs_inv [OF bfsInv_initial assms [unfolded findPaths_def]] obtain seen where
    inv: "bfsInv a src seen [] res"
    by blast
  then have src: "src \<in> seen"
    and ex: "\<forall>p \<in> set res. exact a src p"
    and cl: "\<forall>v \<in> seen. \<forall>x. adjacent a v x \<longrightarrow> x \<in> seen"
    and dis: "distinct (map dest res)"
    and ky: "\<forall>p \<in> set res. isKey a (dest p)"
    and kd: "\<forall>v \<in> seen. isKey a v \<longrightarrow> v \<in> dest ` set res"
    unfolding bfsInv_def by simp_all
  show "\<forall>p \<in> set res. isKey a (dest p) \<and> reachable a src (dest p)
           \<and> len p = int (distance a src (dest p))"
    using ex ky exact_distance by blast
  show "\<forall>v. reachable a src v \<and> isKey a v \<longrightarrow> v \<in> dest ` set res"
    using closed_reachable [OF _ src cl] kd unfolding reachable_def by blast
  show "distinct (map dest res)" using dis .
qed

lemma noDoors_deref: "noDoors a \<Longrightarrow> deref a x = Some cx \<Longrightarrow> cellType cx \<noteq> door"
  by (auto simp: noDoors_def deref_def list_all_length split: if_splits option.splits)

lemma visitAdj_reqKeys:
  assumes "noDoors a" and "reqKeys cur = 0"
  shows "\<forall>p \<in> set q. reqKeys p = 0 \<Longrightarrow> visitAdj a cur xs (seen, q) = Inr (seen', q') \<Longrightarrow>
     \<forall>p \<in> set q'. reqKeys p = 0"
proof (induction xs arbitrary: seen q)
  case Nil
  then show ?case by simp
next
  case (Cons x xs)
  show ?case
  proof (cases "x \<in> seen")
    case True
    with Cons show ?thesis by simp
  next
    case False
    with Cons.prems(2) obtain cx where
      cx: "deref a x = Some cx" and
      r: "visitAdj a cur xs (insert x seen, q @ [extendPath cur x cx]) = Inr (seen', q')"
      by (auto split: option.splits)
    from noDoors_deref [OF assms(1) cx] assms(2) have "reqKeys (extendPath cur x cx) = 0"
      by (simp add: extendPath_def)
    with Cons.prems(1) have "\<forall>p \<in> set (q @ [extendPath cur x cx]). reqKeys p = 0"
      by simp
    from Cons.IH [OF this r] show ?thesis .
  qed
qed

lemma bfs_reqKeys:
  "noDoors a \<Longrightarrow> \<forall>p \<in> set q \<union> set ps. reqKeys p = 0 \<Longrightarrow> bfs a seen q ps = Inr res \<Longrightarrow>
     \<forall>p \<in> set res. reqKeys p = 0"
proof (induction a seen q ps arbitrary: res rule: bfs.induct)
  case (1 a seen ps)
  then show ?case by auto
next
  case (2 a seen current rest ps)
  from "2.prems"(3) obtain c seen' q' where
    c: "deref a (dest current) = Some c" and
    v: "visitAdj a current (adj c) (seen, current # rest) = Inr (seen', q')" and
    r: "bfs a seen' (tl q') (if cellType c = key then ps @ [current] else ps) = Inr res"
    by (auto split: option.splits sum.splits)
  from "2.prems"(2) have cur: "reqKeys current = 0" and q: "\<forall>p \<in> set (current # rest). reqKeys p = 0"
    by simp_all
  from visitAdj_reqKeys [OF "2.prems"(1) cur q v] have "\<forall>p \<in> set q'. reqKeys p = 0" .
  then have "\<forall>p \<in> set (tl q'). reqKeys p = 0"
    by (cases q') simp_all
  with "2.prems"(2) have
    "\<forall>p \<in> set (tl q') \<union> set (if cellType c = key then ps @ [current] else ps). reqKeys p = 0"
    by auto
  from "2.IH" [OF c v refl "2.prems"(1) this r] show ?case .
qed

lemma findPaths_reqKeys:
  assumes "noDoors a" and "findPaths a src = Inr res"
  shows "\<forall>p \<in> set res. reqKeys p = 0"
  using bfs_reqKeys [OF assms(1) _ assms(2) [unfolded findPaths_def]] by simp

lemma extendPath_skeleton:
  "char cx = char dx \<Longrightarrow> cellType cx = cellType dx \<Longrightarrow> extendPath cur x cx = extendPath cur x dx"
  by (simp add: extendPath_def Let_def)

lemma visitAdj_skeleton:
  assumes "skeleton a = skeleton b"
  shows "visitAdj a cur xs sq = visitAdj b cur xs sq"
proof (induction xs arbitrary: sq)
  case Nil
  show ?case by (cases sq) simp
next
  case (Cons x xs)
  obtain seen q where sq: "sq = (seen, q)" by (cases sq)
  show ?case
  proof (cases "deref a x")
    case None
    with skeleton_deref [OF assms, of x] have "deref b x = None"
      by simp
    with None Cons sq show ?thesis by simp
  next
    case (Some cx)
    from skeleton_Some [OF assms Some] obtain dx where
      "deref b x = Some dx" "char dx = char cx" "cellType dx = cellType cx"
      by blast
    with Some Cons sq extendPath_skeleton [of cx dx cur x] show ?thesis
      by simp
  qed
qed

lemma bfs_skeleton:
  "skeleton a = skeleton b \<Longrightarrow> bfs a seen q ps = bfs b seen q ps"
proof (induction a seen q ps rule: bfs.induct)
  case (1 a seen ps)
  show ?case by simp
next
  case (2 a seen current rest ps)
  show ?case
  proof (cases "deref a (dest current)")
    case None
    with skeleton_deref [OF "2.prems", of "dest current"] have "deref b (dest current) = None"
      by simp
    with None show ?thesis by simp
  next
    case (Some c)
    from skeleton_Some [OF "2.prems" Some] obtain d where
      d: "deref b (dest current) = Some d" "adj d = adj c" "cellType d = cellType c"
      by blast
    note v = visitAdj_skeleton [OF "2.prems", of current "adj c" "(seen, current # rest)"]
    show ?thesis
    proof (cases "visitAdj a current (adj c) (seen, current # rest)")
      case (Inl e)
      with v have "visitAdj b current (adj c) (seen, current # rest) = Inl e"
        by simp
      with Inl Some d show ?thesis by simp
    next
      case (Inr sq)
      obtain seen' q' where sq: "sq = (seen', q')" by (cases sq)
      from v Inr sq have "visitAdj b current (adj c) (seen, current # rest) = Inr (seen', q')"
        by simp
      with "2.IH" [OF Some Inr [unfolded sq] refl "2.prems"] Some d Inr sq show ?thesis
        by simp
    qed
  qed
qed

lemma findPaths_skeleton: "skeleton a = skeleton b \<Longrightarrow> findPaths a p = findPaths b p"
  unfolding findPaths_def by (rule bfs_skeleton)

lemma buildPathsAt_paths:
  "distinct ps \<Longrightarrow> buildPathsAt ps a = Inr a' \<Longrightarrow>
     (\<forall>p \<in> set ps. \<forall>c'. deref a' p = Some c' \<and> landmark c' \<longrightarrow> findPaths a' p = Inr (paths c'))
     \<and> (\<forall>x. x \<notin> set ps \<longrightarrow> deref a' x = deref a x)"
proof (induction ps arbitrary: a)
  case Nil
  then show ?case by simp
next
  case (Cons p ps)
  from Cons.prems(1) have dis: "distinct ps" and pn: "p \<notin> set ps"
    by simp_all
  define a1 where "a1 =
    (case deref a p of
       None \<Rightarrow> a
     | Some c \<Rightarrow> if landmark c then a[p := Some (c\<lparr>paths := (case findPaths a p of Inr pths \<Rightarrow> pths | Inl e \<Rightarrow> [])\<rparr>)] else a)"
  have b: "buildPathsAt ps a1 = Inr a'"
    using Cons.prems(2) unfolding a1_def landmark_def
    by (auto split: option.splits sum.splits if_splits)
  have sk1: "skeleton a1 = skeleton a"
    unfolding a1_def using skeleton_setPaths by (auto split: option.splits)
  from skeleton_buildPathsAt [OF b] sk1 have sk: "skeleton a' = skeleton a"
    by simp
  from Cons.IH [OF dis b] have
    ih1: "\<forall>q \<in> set ps. \<forall>c'. deref a' q = Some c' \<and> landmark c' \<longrightarrow> findPaths a' q = Inr (paths c')"
    and ih2: "\<forall>x. x \<notin> set ps \<longrightarrow> deref a' x = deref a1 x"
    by blast+
  have other: "deref a1 x = deref a x" if "x \<noteq> p" for x
    unfolding a1_def using that by (auto simp: deref_update split: option.splits)
  have here: "findPaths a' p = Inr (paths c')" if c': "deref a' p = Some c'" "landmark c'" for c'
  proof -
    from ih2 pn c'(1) have d1: "deref a1 p = Some c'" by simp
    from skeleton_Some [OF sk c'(1)] obtain c where
      c: "deref a p = Some c" "cellType c = cellType c'"
      by metis
    with c'(2) have lc: "landmark c" by (simp add: landmark_def)
    with Cons.prems(2) c obtain pths where f: "findPaths a p = Inr pths"
      by (auto simp: landmark_def split: sum.splits)
    from d1 c lc f have "c' = c\<lparr>paths := pths\<rparr>"
      unfolding a1_def by (auto simp: deref_update dest: deref_Some_length)
    with f findPaths_skeleton [OF sk, of p] show ?thesis
      by simp
  qed
  show ?case
    using ih1 ih2 other here by auto
qed

lemma appendAdj_fields: "appendAdj a p q = Inr a' \<Longrightarrow> fieldsAt a' x = fieldsAt a x"
  by (auto simp: appendAdj_def fieldsAt_def deref_update split: option.splits dest: deref_Some_length)

lemma cell_join_fields:
  assumes "cell_join a p q = Inr a'"
  shows "fieldsAt a' x = fieldsAt a x"
proof -
  from assms obtain b where "appendAdj a p q = Inr b" "appendAdj b q p = Inr a'"
    by (auto simp: cell_join_def split: sum.splits)
  from appendAdj_fields [OF this(1), of x] appendAdj_fields [OF this(2), of x] show ?thesis
    by simp
qed

lemma joinIf_fields: "joinIf cond p q a = Inr a' \<Longrightarrow> fieldsAt a' x = fieldsAt a x"
  by (auto simp: joinIf_def split: if_splits dest: cell_join_fields)

lemma maze_addCell_fields:
  assumes "maze_addCell i j c m = Inr m'" and "length (rows m) = w m * h m"
  shows "fieldsAt (rows m') x =
      (if x = i * w m + j then Some (char c, cellType c, paths c) else fieldsAt (rows m) x)"
    and "maze.keys m' = (if cellType c = key then keyset_plus (maze.keys m) (char c) else maze.keys m)"
proof -
  let ?p = "i * w m + j"
  let ?a0 = "(rows m)[?p := Some c]"
  from assms(1) have ij: "i < h m" "j < w m"
    by (auto simp: maze_addCell_def split: if_splits)
  have "?p < w m * h m"
  proof -
    have "?p < i * w m + w m" using ij by simp
    also have "\<dots> = w m * Suc i" by simp
    also have "\<dots> \<le> w m * h m" using ij by (intro mult_le_mono2) simp
    finally show ?thesis .
  qed
  then have plen: "?p < length (rows m)"
    using assms(2) by simp
  from assms(1) ij obtain a1 a2 a3 a4 where
    j1: "joinIf (0 < i) ?p ((i - 1) * w m + j) ?a0 = Inr a1" and
    j2: "joinIf (0 < j) ?p (i * w m + (j - 1)) a1 = Inr a2" and
    j3: "joinIf (i + 1 < h m) ?p ((i + 1) * w m + j) a2 = Inr a3" and
    j4: "joinIf (j + 1 < w m) ?p (i * w m + (j + 1)) a3 = Inr a4" and
    m': "m' = m\<lparr>rows := a4,
               maze.keys := (if cellType c = key then keyset_plus (maze.keys m) (char c)
                             else maze.keys m)\<rparr>"
    by (auto simp: maze_addCell_def Let_def split: sum.splits)
  have "fieldsAt a4 x = fieldsAt ?a0 x"
    using joinIf_fields [OF j1, of x] joinIf_fields [OF j2, of x] joinIf_fields [OF j3, of x]
      joinIf_fields [OF j4, of x]
    by simp
  also have "\<dots> = (if x = ?p then Some (char c, cellType c, paths c) else fieldsAt (rows m) x)"
    using plen by (simp add: fieldsAt_def deref_update)
  finally show "fieldsAt (rows m') x =
      (if x = ?p then Some (char c, cellType c, paths c) else fieldsAt (rows m) x)"
    by (simp add: m')
  show "maze.keys m' = (if cellType c = key then keyset_plus (maze.keys m) (char c) else maze.keys m)"
    by (simp add: m')
qed

lemma newCell_key: "cellType (newCell ch) = key \<longleftrightarrow> 97 \<le> ch \<and> ch \<le> 122"
  by (auto simp: newCell_def)

lemma newCell_start: "cellType (newCell ch) = start \<longleftrightarrow> ch = 64"
  by (auto simp: newCell_def)

lemma keyset_plus_mono: "keyset_contains k c \<Longrightarrow> keyset_contains (keyset_plus k d) c"
  by (simp add: keyset_contains_bit keyset_plus_bit)

lemma keyset_plus_self: "97 \<le> c \<Longrightarrow> c \<le> 122 \<Longrightarrow> keyset_contains (keyset_plus k c) c"
  using letter_index [of c] by (simp add: keyset_contains_bit keyset_plus_bit)

lemma fieldsAt_Some:
  "deref a x = Some c \<Longrightarrow> fieldsAt a x = Some (char c, cellType c, paths c)"
  by (simp add: fieldsAt_def)

lemma fieldsAt_eq_Some:
  "fieldsAt a x = Some (ch, ct, ps) \<Longrightarrow> \<exists>c. deref a x = Some c \<and> char c = ch \<and> cellType c = ct \<and> paths c = ps"
  by (auto simp: fieldsAt_def)

lemma cellsInv_addCell:
  assumes "cellsInv m" and "length (rows m) = w m * h m"
    and "maze_addCell i j (newCell ch) m = Inr m'"
  shows "cellsInv m'"
  unfolding cellsInv_def
proof (intro allI impI)
  fix x c
  assume c: "deref (rows m') x = Some c"
  note f = maze_addCell_fields [OF assms(3,2)]
  have nc: "char (newCell ch) = ch"
    by (simp add: newCell_def)
  show "cellType c = cellType (newCell (char c))
        \<and> (cellType c = key \<longrightarrow> keyset_contains (maze.keys m') (char c))"
  proof (cases "x = i * w m + j")
    case True
    with f(1) [of x] fieldsAt_Some [OF c] have "char c = ch" "cellType c = cellType (newCell ch)"
      by (auto simp: nc)
    then show ?thesis
      using f(2) keyset_plus_self [of ch "maze.keys m"] newCell_key [of ch] by (auto simp: nc)
  next
    case False
    with f(1) [of x] fieldsAt_Some [OF c] have "fieldsAt (rows m) x = Some (char c, cellType c, paths c)"
      by simp
    from fieldsAt_eq_Some [OF this] obtain c0 where
      "deref (rows m) x = Some c0" "char c0 = char c" "cellType c0 = cellType c"
      by blast
    with assms(1) have "cellType c = cellType (newCell (char c))"
      "cellType c = key \<longrightarrow> keyset_contains (maze.keys m) (char c)"
      unfolding cellsInv_def by metis+
    then show ?thesis
      using f(2) keyset_plus_mono by auto
  qed
qed

lemma inv_addRowCells:
  "gridInv m \<Longrightarrow> cellsInv m \<Longrightarrow> addRowCells i row js m = Inr m' \<Longrightarrow> cellsInv m'"
proof (induction js arbitrary: m)
  case Nil
  then show ?case by simp
next
  case (Cons j js)
  show ?case
  proof (cases "row ! j \<noteq> 35")
    case True
    with Cons.prems(3) obtain m1 where
      m1: "maze_addCell i j (newCell (row ! j)) m = Inr m1" "addRowCells i row js m1 = Inr m'"
      by (auto split: sum.splits)
    have g1: "gridInv m1"
      using Cons.prems(1) m1(1) by (rule gridInv_addCell) (simp add: newCell_def)
    from Cons.prems(1) have "length (rows m) = w m * h m"
      by (simp add: gridInv_def)
    from cellsInv_addCell [OF Cons.prems(2) this m1(1)] have "cellsInv m1" .
    from Cons.IH [OF g1 this m1(2)] show ?thesis .
  next
    case False
    with Cons show ?thesis by simp
  qed
qed

lemma inv_addRows:
  "gridInv m \<Longrightarrow> cellsInv m \<Longrightarrow> addRows i ls m = Inr m' \<Longrightarrow> cellsInv m'"
proof (induction ls arbitrary: i m)
  case Nil
  then show ?case by simp
next
  case (Cons row ls)
  from Cons.prems(3) obtain m1 where
    m1: "addRowCells i row (rangeString row) m = Inr m1" "addRows (Suc i) ls m1 = Inr m'"
    by (auto split: sum.splits)
  from Cons.IH [OF gridInv_addRowCells [OF Cons.prems(1) m1(1)]
      inv_addRowCells [OF Cons.prems(1,2) m1(1)] m1(2)]
  show ?case .
qed

lemma cellsInv_newMaze: "cellsInv (newMaze wd ht)"
  by (simp add: cellsInv_def newMaze_def deref_def)

lemma readMaze_facts:
  assumes "readMaze ls = Inr m" and "deref (rows m) p = Some c"
  shows "cellType c = cellType (newCell (char c))"
    and "cellType c = key \<Longrightarrow> keyset_contains (maze.keys m) (char c)"
    and "landmark c \<Longrightarrow> findPaths (rows m) p = Inr (paths c)"
proof -
  from assms(1) obtain l0 rest m1 where
    ls: "ls = l0 # rest" and
    m1: "addRows 0 ls (newMaze (length l0) (length ls)) = Inr m1" and
    m: "maze_buildPaths m1 = Inr m"
    by (auto simp: readMaze_def split: list.splits sum.splits)
  from inv_addRows [OF gridInv_newMaze cellsInv_newMaze m1] have ci: "cellsInv m1" .
  from m obtain a where
    a: "buildPathsAt [0..<length (rows m1)] (rows m1) = Inr a" "m = m1\<lparr>rows := a\<rparr>"
    by (auto simp: maze_buildPaths_def split: sum.splits)
  from skeleton_buildPathsAt [OF a(1)] have sk: "skeleton a = skeleton (rows m1)" .
  from assms(2) a(2) have c: "deref a p = Some c" by simp
  from skeleton_Some [OF sk c] obtain c1 where
    c1: "deref (rows m1) p = Some c1" "char c1 = char c" "cellType c1 = cellType c"
    by blast
  with ci have "cellType c = cellType (newCell (char c))"
    "cellType c = key \<longrightarrow> keyset_contains (maze.keys m1) (char c)"
    unfolding cellsInv_def by metis+
  then show "cellType c = cellType (newCell (char c))"
    and "cellType c = key \<Longrightarrow> keyset_contains (maze.keys m) (char c)"
    using a(2) by simp_all
  assume l: "landmark c"
  from c have "p < length a" by (rule deref_Some_length)
  with skeleton_length [OF sk] have "p \<in> set [0..<length (rows m1)]"
    by simp
  with buildPathsAt_paths [OF _ a(1)] c l have "findPaths a p = Inr (paths c)"
    by (metis distinct_upt)
  then show "findPaths (rows m) p = Inr (paths c)"
    using a(2) by simp
qed

lemma hops_trans: "hops a v k x \<Longrightarrow> hops a u n v \<Longrightarrow> hops a u (n + k) x"
  by (induction rule: hops.induct) (auto intro: hops_Suc)

lemma reachable_trans: "reachable a u v \<Longrightarrow> reachable a v x \<Longrightarrow> reachable a u x"
  unfolding reachable_def by (blast intro: hops_trans)

lemma single_dest:
  assumes "distinct (map f xs)" and "\<forall>x \<in> set xs. f x = v" and "xs \<noteq> []"
  shows "\<exists>x. xs = [x]"
proof (cases xs)
  case Nil
  with assms(3) show ?thesis by simp
next
  case (Cons x ys)
  with assms(1,2) have "ys = []"
    by (cases ys) auto
  with Cons show ?thesis by simp
qed

lemma cellChars_valid:
  "\<forall>c \<in> set cs. deref a c \<noteq> None \<Longrightarrow> \<exists>bs. cellChars a cs = Inr bs"
  by (induction cs) (auto split: option.splits)

lemma state_String_valid:
  "\<forall>c \<in> set (cells s). deref a c \<noteq> None \<Longrightarrow> \<exists>k. state_String a s = Inr k"
  using cellChars_valid [of "cells s" a] by (auto simp: state_String_def)

lemma not_contains_0: "\<not> keyset_contains 0 c"
  by (simp add: keyset_contains_bit)

lemma containsAll_0: "keyset_containsAll k 0"
  by (simp add: keyset_containsAll_def)

lemma oneKey_check:
  "(case readMaze oneKey of
      Inl e \<Rightarrow> False
    | Inr m \<Rightarrow> maze_start m = [1] \<and> isKey (rows m) 3 \<and> noDoors (rows m)
        \<and> filter (isKey (rows m)) [0..<length (rows m)] = [3]
        \<and> (case deref (rows m) 1 of None \<Rightarrow> False | Some c \<Rightarrow> 2 \<in> set (adj c))
        \<and> (case deref (rows m) 2 of None \<Rightarrow> False | Some c \<Rightarrow> 3 \<in> set (adj c)))"
  by code_simp

lemma oneKey_2: "solveMaze 2 oneKey = Inr 2"
  by code_simp

text \<open>
  C5. For every maze that \<open>readMaze\<close> returns, with exactly one start cell \<open>s0\<close>, exactly
  one key cell \<open>k\<close> reachable from it and no door cell, \<open>shortestPath\<close> on the initial
  state (with an empty table, at every recursion bound from 2 on) returns the distance
  from \<open>s0\<close> to \<open>k\<close> in the adjacency graph: the least number of steps of a walk from
  \<open>s0\<close> to \<open>k\<close>.
\<close>

theorem single_key_distance:
  assumes rm: "readMaze ls = Inr m"
    and st: "maze_start m = [s0]"
    and k: "isKey (rows m) k" and rk: "reachable (rows m) s0 k"
    and uniq: "\<forall>k'. isKey (rows m) k' \<and> reachable (rows m) s0 k' \<longrightarrow> k' = k"
    and nd: "noDoors (rows m)"
  shows "solveMaze (2 + n) ls = Inr (int (distance (rows m) s0 k))"
proof -
  let ?a = "rows m"
  from st have "s0 \<in> set (maze_start m)" by simp
  then obtain c0 where c0: "deref ?a s0 = Some c0" "cellType c0 = start"
    by (auto simp: maze_start_def split: option.splits)
  from k obtain ck where ck: "deref ?a k = Some ck" "cellType ck = key"
    by (auto simp: isKey_def split: option.splits)
  from readMaze_facts(3) [OF rm c0(1)] c0(2) have f0: "findPaths ?a s0 = Inr (paths c0)"
    by (simp add: landmark_def)
  from readMaze_facts(3) [OF rm ck(1)] ck(2) have fk: "findPaths ?a k = Inr (paths ck)"
    by (simp add: landmark_def)
  from readMaze_facts(1,2) [OF rm ck(1)] ck(2) have
    chk: "97 \<le> char ck" "char ck \<le> 122" and mk: "keyset_contains (maze.keys m) (char ck)"
    using newCell_key [of "char ck"] by simp_all
  note cor0 = findPaths_correct [OF f0]
  from cor0(1) uniq have d0: "\<forall>p \<in> set (paths c0). dest p = k"
    by blast
  from cor0(2) k rk have "paths c0 \<noteq> []"
    by auto
  from single_dest [OF cor0(3) d0 this] obtain p0 where p0: "paths c0 = [p0]"
    by blast
  with d0 cor0(1) findPaths_reqKeys [OF nd f0] have
    dp0: "dest p0 = k" and lp0: "len p0 = int (distance ?a s0 k)" and rp0: "reqKeys p0 = 0"
    by auto
  note cork = findPaths_correct [OF fk]
  have dk: "dest p = k" if "p \<in> set (paths ck)" for p
  proof -
    from cork(1) that have "isKey ?a (dest p)" "reachable ?a k (dest p)"
      by blast+
    with uniq reachable_trans [OF rk] show ?thesis
      by blast
  qed
  let ?s = "initial m"
  let ?ns = "nextState ?s 0 k ck"
  have cs: "cells ?s = [s0]" "state.keys ?s = 0"
    by (simp_all add: initial_def st)
  have cns: "cells ?ns = [k]" "state.keys ?ns = keyset_plus 0 (char ck)"
    by (simp_all add: nextState_def state_copy_def cs)
  obtain key0 where key0: "state_String ?a ?s = Inr key0"
    using state_String_valid [of ?s ?a] c0(1) cs by auto
  obtain key1 where key1: "state_String ?a ?ns = Inr key1"
    using state_String_valid [of ?ns ?a] ck(1) cns by auto
  have own: "keyset_contains (state.keys ?ns) (char ck)"
    unfolding cns using chk by (rule keyset_plus_self)
  have "list_all (skipped ?a ?ns) (paths ck)"
    unfolding list_all_iff using dk ck(1) own by (auto simp: skipped_def)
  with ck(1) cns have
    ne: "list_all (\<lambda>c. case deref ?a c of None \<Rightarrow> False
                           | Some cl \<Rightarrow> list_all (skipped ?a ?ns) (paths cl)) (cells ?ns)"
    by simp
  have inner: "\<exists>t1. shortestPath (Suc n) m ?ns Map.empty = Inr (0, t1)"
    using key1 cellsLoop_noEligible [OF ne] by simp
  then obtain t1 where t1: "shortestPath (Suc n) m ?ns Map.empty = Inr (0, t1)" ..
  have nz: "state.keys ?s \<noteq> maze.keys m"
    using mk not_contains_0 [of "char ck"] cs by auto
  have "shortestPath (Suc (Suc n)) m ?s Map.empty = Inr (len p0, t1(key0 \<mapsto> len p0))"
    using key0 nz c0(1) p0 dp0 rp0 ck(1) t1 cs not_contains_0 [of "char ck"] containsAll_0
    by (simp add: updMin_def)
  with rm lp0 show ?thesis
    by (simp add: solveMaze_def)
qed

theorem single_key_distance_witness:
  "\<exists>m. readMaze oneKey = Inr m \<and> maze_start m = [1]
     \<and> isKey (rows m) 3 \<and> reachable (rows m) 1 3 \<and> noDoors (rows m)
     \<and> solveMaze 2 oneKey = Inr (int (distance (rows m) 1 3))
     \<and> distance (rows m) 1 3 = 2"
proof -
  from oneKey_check obtain m where
    m: "readMaze oneKey = Inr m" "maze_start m = [1]" "isKey (rows m) 3" "noDoors (rows m)"
      "filter (isKey (rows m)) [0..<length (rows m)] = [3]"
    and a12: "adjacent (rows m) 1 2" and a23: "adjacent (rows m) 2 3"
    by (auto simp: adjacent_def split: sum.splits option.splits)
  have "hops (rows m) 1 2 3"
    using hops_Suc [OF hops_Suc [OF hops_0 a12] a23] by (simp add: numeral_2_eq_2)
  then have r: "reachable (rows m) 1 3"
    unfolding reachable_def by blast
  have u: "\<forall>k'. isKey (rows m) k' \<and> reachable (rows m) 1 k' \<longrightarrow> k' = 3"
  proof (intro allI impI)
    fix k'
    assume "isKey (rows m) k' \<and> reachable (rows m) 1 k'"
    then have k: "isKey (rows m) k'" ..
    then have "k' < length (rows m)"
      by (auto simp: isKey_def deref_def split: option.splits if_splits)
    with k have "k' \<in> set (filter (isKey (rows m)) [0..<length (rows m)])"
      by simp
    with m(5) show "k' = 3" by simp
  qed
  from single_key_distance [OF m(1,2,3) r u m(4), of 0]
  have d: "solveMaze 2 oneKey = Inr (int (distance (rows m) 1 3))"
    by simp
  with oneKey_2 have "distance (rows m) 1 3 = 2"
    by simp
  with m r d show ?thesis by blast
qed

end
